theory Spec2Isabelle
  imports Main "HOL-Library.Word" "HOL-Library.Char_ord"
begin

unbundle bit_operations_syntax

section \<open>Constants and basic types of Main.cpp\<close>

text \<open>
  The macros of the source. \<open>Feedback\<close> is \<open>uint8_t\<close>, \<open>Letter\<close> is \<open>char\<close>,
  and every \<open>int32_t\<close> of the source is a 32-bit word, read as a signed integer by
  \<open>sint\<close>: the comparisons of the source are the signed ones (\<open><s\<close>, \<open>\<le>s\<close>).
  Signed overflow is undefined in C++; the model wraps around, as the two's complement
  machine does, and no \<open>int32_t\<close> holds a value of \<open>2 ^ 31\<close> or more whatever the
  compiler makes of it.
\<close>

type_synonym Feedback = "8 word"
type_synonym Letter = char
type_synonym int32_t = "32 word"

definition NUMBER_OF_LETTERS :: nat where
  "NUMBER_OF_LETTERS = 26"

definition WORD_LENGTH :: nat where
  "WORD_LENGTH = 5"

definition FEEDBACK_NOT_IN_WORD :: Feedback where
  "FEEDBACK_NOT_IN_WORD = 0"

definition FEEDBACK_IN_WORD :: Feedback where
  "FEEDBACK_IN_WORD = 1"

definition FEEDBACK_IN_POSITION :: Feedback where
  "FEEDBACK_IN_POSITION = 2"

definition MAX_FEEDBACK_ID :: int32_t where
  "MAX_FEEDBACK_ID =
     push_bit (0 * 2) (ucast FEEDBACK_IN_POSITION) OR
     push_bit (1 * 2) (ucast FEEDBACK_IN_POSITION) OR
     push_bit (2 * 2) (ucast FEEDBACK_IN_POSITION) OR
     push_bit (3 * 2) (ucast FEEDBACK_IN_POSITION) OR
     push_bit (4 * 2) (ucast FEEDBACK_IN_POSITION)"

text \<open>
  Every \<open>throw std::runtime_error\<close> of the source is a value of \<open>error\<close>, named
  after its message. \<open>OutOfRange\<close> stands for a read or write of a \<open>std::vector\<close>
  outside its size, which the source does not check.
\<close>

datatype error =
    InvalidLetter
  | InvalidWordLength
  | InvalidGuessLength
  | InvalidFeedbackLength
  | InvalidFeedbackCode
  | OutOfRange

definition indexForLetter :: "Letter \<Rightarrow> error + nat" where
  "indexForLetter letter =
     (if \<not> (CHR ''a'' \<le> letter \<and> letter \<le> CHR ''z'') then Inl InvalidLetter
      else Inr (of_char letter - of_char (CHR ''a'')))"

section \<open>class Word\<close>

text \<open>
  \<open>letters\<close> is the \<open>std::array<Letter, WORD_LENGTH>\<close>; \<open>letterPositionMap\<close> is
  the array of \<open>NUMBER_OF_LETTERS\<close> bitsets, each a list of \<open>WORD_LENGTH\<close> bits.
\<close>

record Word =
  letters :: "Letter list"
  letterPositionMap :: "bool list list"

text \<open>
  The constructor \<open>Word::Word(std::string)\<close>. The loop body stores the letter and sets
  bit \<open>i\<close> of the bitset of that letter; \<open>indexForLetter\<close> may throw.
\<close>

fun Word_loop :: "string \<Rightarrow> nat list \<Rightarrow> Word \<Rightarrow> error + Word" where
  "Word_loop wordString [] w = Inr w"
| "Word_loop wordString (i # is) w =
     (let letter = wordString ! i in
      case indexForLetter letter of
        Inl e \<Rightarrow> Inl e
      | Inr k \<Rightarrow>
          Word_loop wordString is
            (w\<lparr>letters := (letters w)[i := letter],
               letterPositionMap :=
                 (letterPositionMap w)[k := (letterPositionMap w ! k)[i := True]]\<rparr>))"

definition Word_new :: "string \<Rightarrow> error + Word" where
  "Word_new wordString =
     (if length wordString \<noteq> WORD_LENGTH then Inl InvalidWordLength
      else Word_loop wordString [0..<WORD_LENGTH]
             \<lparr>letters = replicate WORD_LENGTH (CHR 0x00),
              letterPositionMap = replicate NUMBER_OF_LETTERS (replicate WORD_LENGTH False)\<rparr>)"

text \<open>
  The class has no other constructor and its fields are private, so the \<open>Word\<close>
  objects of the program are exactly the values the constructor returns.
\<close>

definition is_Word :: "Word \<Rightarrow> bool" where
  "is_Word w = (Word_new (letters w) = Inr w)"

definition toString :: "Word \<Rightarrow> string" where
  "toString w = map (\<lambda>i. letters w ! i) [0..<WORD_LENGTH]"

definition containsLetter :: "Word \<Rightarrow> Letter \<Rightarrow> error + bool" where
  "containsLetter w letter =
     (case indexForLetter letter of
        Inl e \<Rightarrow> Inl e
      | Inr k \<Rightarrow> Inr (list_ex id (letterPositionMap w ! k)))"

definition letterAt :: "Word \<Rightarrow> nat \<Rightarrow> Letter" where
  "letterAt w index = letters w ! index"

section \<open>struct GuessFeedback\<close>

record GuessFeedback =
  guess :: "Letter list"
  feedback :: "Feedback list"

text \<open>
  \<open>GuessFeedback(Word, int32_t)\<close>: field \<open>i\<close> is \<open>(feedbackId >> (2 * i)) & 0x3\<close>,
  the shift being the arithmetic one of a signed \<open>int32_t\<close>.
\<close>

definition feedbackField :: "int32_t \<Rightarrow> nat \<Rightarrow> Feedback" where
  "feedbackField feedbackId i = ucast (signed_drop_bit (2 * i) feedbackId AND 0x3)"

definition GuessFeedback_of_id :: "Word \<Rightarrow> int32_t \<Rightarrow> GuessFeedback" where
  "GuessFeedback_of_id guessString feedbackId =
     fold (\<lambda>i gf. gf\<lparr>guess := (guess gf)[i := letterAt guessString i],
                      feedback := (feedback gf)[i := feedbackField feedbackId i]\<rparr>)
       [0..<WORD_LENGTH]
       \<lparr>guess = replicate WORD_LENGTH (CHR 0x00), feedback = replicate WORD_LENGTH 0\<rparr>"

text \<open>\<open>GuessFeedback(std::string, std::string)\<close>, with its three throws.\<close>

fun GuessFeedback_loop ::
  "string \<Rightarrow> string \<Rightarrow> nat list \<Rightarrow> GuessFeedback \<Rightarrow> error + GuessFeedback" where
  "GuessFeedback_loop guessString feedbackString [] gf = Inr gf"
| "GuessFeedback_loop guessString feedbackString (i # is) gf =
     (let gf1 = gf\<lparr>guess := (guess gf)[i := guessString ! i]\<rparr>;
          c = feedbackString ! i in
      if c = CHR ''r'' then
        GuessFeedback_loop guessString feedbackString is
          (gf1\<lparr>feedback := (feedback gf1)[i := FEEDBACK_NOT_IN_WORD]\<rparr>)
      else if c = CHR ''y'' then
        GuessFeedback_loop guessString feedbackString is
          (gf1\<lparr>feedback := (feedback gf1)[i := FEEDBACK_IN_WORD]\<rparr>)
      else if c = CHR ''g'' then
        GuessFeedback_loop guessString feedbackString is
          (gf1\<lparr>feedback := (feedback gf1)[i := FEEDBACK_IN_POSITION]\<rparr>)
      else Inl InvalidFeedbackCode)"

definition GuessFeedback_of_strings :: "string \<Rightarrow> string \<Rightarrow> error + GuessFeedback" where
  "GuessFeedback_of_strings guessString feedbackString =
     (if length guessString \<noteq> WORD_LENGTH then Inl InvalidGuessLength
      else if length feedbackString \<noteq> WORD_LENGTH then Inl InvalidFeedbackLength
      else GuessFeedback_loop guessString feedbackString [0..<WORD_LENGTH]
             \<lparr>guess = replicate WORD_LENGTH (CHR 0x00),
              feedback = replicate WORD_LENGTH 0\<rparr>)"

text \<open>
  \<open>isConsistentWith\<close>: the \<open>switch\<close> has no default, so a code other than 0, 1, 2
  constrains nothing. \<open>containsLetter\<close> may throw on a letter outside a..z.
\<close>

fun isConsistentWith_loop :: "GuessFeedback \<Rightarrow> Word \<Rightarrow> nat list \<Rightarrow> error + bool" where
  "isConsistentWith_loop gf w [] = Inr True"
| "isConsistentWith_loop gf w (i # is) =
     (if feedback gf ! i = FEEDBACK_NOT_IN_WORD then
        (case containsLetter w (guess gf ! i) of
           Inl e \<Rightarrow> Inl e
         | Inr b \<Rightarrow> if b then Inr False else isConsistentWith_loop gf w is)
      else if feedback gf ! i = FEEDBACK_IN_WORD then
        (case containsLetter w (guess gf ! i) of
           Inl e \<Rightarrow> Inl e
         | Inr b \<Rightarrow>
             if \<not> b then Inr False
             else if letterAt w i = guess gf ! i then Inr False
             else isConsistentWith_loop gf w is)
      else if feedback gf ! i = FEEDBACK_IN_POSITION then
        (if letterAt w i \<noteq> guess gf ! i then Inr False
         else isConsistentWith_loop gf w is)
      else isConsistentWith_loop gf w is)"

definition isConsistentWith :: "GuessFeedback \<Rightarrow> Word \<Rightarrow> error + bool" where
  "isConsistentWith gf w = isConsistentWith_loop gf w [0..<WORD_LENGTH]"

section \<open>WordleGame: feedback computation\<close>

text \<open>
  The code of one position, as the loop body of \<open>computeFeedbackId\<close> chooses it.
\<close>

definition feedbackCode :: "Word \<Rightarrow> Word \<Rightarrow> nat \<Rightarrow> error + Feedback" where
  "feedbackCode guess_w solution i =
     (if letterAt solution i = letterAt guess_w i then Inr FEEDBACK_IN_POSITION
      else case containsLetter solution (letterAt guess_w i) of
             Inl e \<Rightarrow> Inl e
           | Inr b \<Rightarrow> Inr (if b then FEEDBACK_IN_WORD else FEEDBACK_NOT_IN_WORD))"

text \<open>\<open>result |= code << (2 * i)\<close>, the code promoted to \<open>int\<close> before the shift.\<close>

fun computeFeedbackId_loop :: "Word \<Rightarrow> Word \<Rightarrow> nat list \<Rightarrow> int32_t \<Rightarrow> error + int32_t" where
  "computeFeedbackId_loop guess_w solution [] result = Inr result"
| "computeFeedbackId_loop guess_w solution (i # is) result =
     (case feedbackCode guess_w solution i of
        Inl e \<Rightarrow> Inl e
      | Inr code \<Rightarrow>
          computeFeedbackId_loop guess_w solution is
            (result OR push_bit (2 * i) (ucast code)))"

definition computeFeedbackId :: "Word \<Rightarrow> Word \<Rightarrow> error + int32_t" where
  "computeFeedbackId guess_w solution =
     computeFeedbackId_loop guess_w solution [0..<WORD_LENGTH] 0"

text \<open>
  The packing of \<open>computeFeedbackId\<close> on its own: the key of an array of codes,
  2 bits per position, position \<open>i\<close> at bit offset \<open>2 * i\<close>.
\<close>

definition packFeedback :: "Feedback list \<Rightarrow> int32_t" where
  "packFeedback codes =
     fold (\<lambda>i result. result OR push_bit (2 * i) (ucast (codes ! i))) [0..<WORD_LENGTH] 0"

definition computeFeedback :: "Word \<Rightarrow> Word \<Rightarrow> error + GuessFeedback" where
  "computeFeedback guess_w solution =
     (case computeFeedbackId guess_w solution of
        Inl e \<Rightarrow> Inl e
      | Inr feedbackId \<Rightarrow> Inr (GuessFeedback_of_id guess_w feedbackId))"

section \<open>class WordleGame\<close>

record WordleGame =
  guessWords :: "Word list"
  answerWords :: "Word list"
  feedbacks :: "GuessFeedback list"

text \<open>The constructor appends the answer words to the guess words.\<close>

definition WordleGame_new :: "Word list \<Rightarrow> Word list \<Rightarrow> WordleGame" where
  "WordleGame_new guessWordList answerWordList =
     \<lparr>guessWords = guessWordList @ answerWordList,
      answerWords = answerWordList,
      feedbacks = []\<rparr>"

definition pushFeedback :: "WordleGame \<Rightarrow> GuessFeedback \<Rightarrow> WordleGame" where
  "pushFeedback game guessFeedback = game\<lparr>feedbacks := feedbacks game @ [guessFeedback]\<rparr>"

text \<open>
  \<open>pop_back\<close> on an empty vector is undefined; \<open>getGuess\<close> calls \<open>popFeedback\<close>
  only right after a \<open>pushFeedback\<close>.
\<close>

definition popFeedback :: "WordleGame \<Rightarrow> WordleGame" where
  "popFeedback game = game\<lparr>feedbacks := butlast (feedbacks game)\<rparr>"

fun isPossibleAnswer_loop :: "GuessFeedback list \<Rightarrow> Word \<Rightarrow> error + bool" where
  "isPossibleAnswer_loop [] word = Inr True"
| "isPossibleAnswer_loop (guessFeedback # rest) word =
     (case isConsistentWith guessFeedback word of
        Inl e \<Rightarrow> Inl e
      | Inr b \<Rightarrow> if \<not> b then Inr False else isPossibleAnswer_loop rest word)"

definition isPossibleAnswer :: "WordleGame \<Rightarrow> Word \<Rightarrow> error + bool" where
  "isPossibleAnswer game word = isPossibleAnswer_loop (feedbacks game) word"

subsection \<open>The loops of getGuess\<close>

text \<open>Lines 246 to 253: \<open>numPossibleSolutions\<close>.\<close>

fun countPossibleSolutions :: "WordleGame \<Rightarrow> Word list \<Rightarrow> int32_t \<Rightarrow> error + int32_t" where
  "countPossibleSolutions game [] numPossibleSolutions = Inr numPossibleSolutions"
| "countPossibleSolutions game (possibleSolution # rest) numPossibleSolutions =
     (case isPossibleAnswer game possibleSolution of
        Inl e \<Rightarrow> Inl e
      | Inr b \<Rightarrow>
          countPossibleSolutions game rest
            (if b then numPossibleSolutions + 1 else numPossibleSolutions))"

text \<open>Lines 256 to 263: the words written to \<open>std::cout\<close>, in order.\<close>

fun printPossibleSolutions :: "WordleGame \<Rightarrow> Word list \<Rightarrow> error + Word list" where
  "printPossibleSolutions game [] = Inr []"
| "printPossibleSolutions game (possibleSolution # rest) =
     (case isPossibleAnswer game possibleSolution of
        Inl e \<Rightarrow> Inl e
      | Inr b \<Rightarrow>
          (case printPossibleSolutions game rest of
             Inl e \<Rightarrow> Inl e
           | Inr out \<Rightarrow> Inr (if b then possibleSolution # out else out)))"

text \<open>Lines 267 to 273: the early return, \<open>None\<close> when the loop falls through.\<close>

fun firstPossibleSolution :: "WordleGame \<Rightarrow> Word list \<Rightarrow> error + Word option" where
  "firstPossibleSolution game [] = Inr None"
| "firstPossibleSolution game (possibleSolution # rest) =
     (case isPossibleAnswer game possibleSolution of
        Inl e \<Rightarrow> Inl e
      | Inr b \<Rightarrow>
          if b then Inr (Some possibleSolution) else firstPossibleSolution game rest)"

text \<open>
  Lines 282 to 288: the bucket counts. The index of \<open>feedbackIdCounts[feedbackId]\<close>
  is the \<open>int32_t\<close> converted to \<open>size_t\<close>; outside the vector the model returns
  \<open>OutOfRange\<close>.
\<close>

fun countFeedbackIds ::
  "WordleGame \<Rightarrow> Word \<Rightarrow> Word list \<Rightarrow> int32_t list \<Rightarrow> error + int32_t list" where
  "countFeedbackIds game potentialGuess [] feedbackIdCounts = Inr feedbackIdCounts"
| "countFeedbackIds game potentialGuess (presumedSolution # rest) feedbackIdCounts =
     (case isPossibleAnswer game presumedSolution of
        Inl e \<Rightarrow> Inl e
      | Inr b \<Rightarrow>
          if \<not> b then countFeedbackIds game potentialGuess rest feedbackIdCounts
          else
            (case computeFeedbackId potentialGuess presumedSolution of
               Inl e \<Rightarrow> Inl e
             | Inr feedbackId \<Rightarrow>
                 if sint feedbackId < 0 \<or> length feedbackIdCounts \<le> nat (sint feedbackId)
                 then Inl OutOfRange
                 else
                   countFeedbackIds game potentialGuess rest
                     (feedbackIdCounts
                        [nat (sint feedbackId) := feedbackIdCounts ! nat (sint feedbackId) + 1])))"

text \<open>Lines 294 to 300, for one pushed feedback: \<open>count\<close> is \<open>feedbackIdCounts[feedbackId]\<close>.\<close>

fun addRemaining :: "WordleGame \<Rightarrow> Word list \<Rightarrow> int32_t \<Rightarrow> int32_t \<Rightarrow> error + int32_t" where
  "addRemaining game [] count numberRemainingPossibleSolutions =
     Inr numberRemainingPossibleSolutions"
| "addRemaining game (possibleSolution # rest) count numberRemainingPossibleSolutions =
     (case isPossibleAnswer game possibleSolution of
        Inl e \<Rightarrow> Inl e
      | Inr b \<Rightarrow>
          addRemaining game rest count
            (if b then numberRemainingPossibleSolutions + count
             else numberRemainingPossibleSolutions))"

text \<open>
  Lines 289 to 302: the loop over \<open>feedbackId = 0 .. MAX_FEEDBACK_ID\<close>, given as the
  list of its values, with the speculative push and pop.
\<close>

fun scoreFeedbackIds ::
  "WordleGame \<Rightarrow> Word \<Rightarrow> int32_t list \<Rightarrow> nat list \<Rightarrow> int32_t \<Rightarrow> error + WordleGame \<times> int32_t"
  where
  "scoreFeedbackIds game potentialGuess feedbackIdCounts [] numberRemainingPossibleSolutions =
     Inr (game, numberRemainingPossibleSolutions)"
| "scoreFeedbackIds game potentialGuess feedbackIdCounts (feedbackId # rest)
     numberRemainingPossibleSolutions =
     (if length feedbackIdCounts \<le> feedbackId then Inl OutOfRange
      else if feedbackIdCounts ! feedbackId = 0 then
        scoreFeedbackIds game potentialGuess feedbackIdCounts rest
          numberRemainingPossibleSolutions
      else
        (let pushed = pushFeedback game
               (GuessFeedback_of_id potentialGuess (word_of_nat feedbackId)) in
         case addRemaining pushed (answerWords pushed) (feedbackIdCounts ! feedbackId)
                numberRemainingPossibleSolutions of
           Inl e \<Rightarrow> Inl e
         | Inr n \<Rightarrow>
             scoreFeedbackIds (popFeedback pushed) potentialGuess feedbackIdCounts rest n))"

text \<open>
  The body of the loop over the guess words up to line 302: the value of
  \<open>numberRemainingPossibleSolutions\<close> for one \<open>potentialGuess\<close>.
\<close>

definition scoreGuess :: "WordleGame \<Rightarrow> Word \<Rightarrow> error + WordleGame \<times> int32_t" where
  "scoreGuess game potentialGuess =
     (case countFeedbackIds game potentialGuess (answerWords game)
             (replicate (nat (sint (MAX_FEEDBACK_ID + 1))) 0) of
        Inl e \<Rightarrow> Inl e
      | Inr feedbackIdCounts \<Rightarrow>
          scoreFeedbackIds game potentialGuess feedbackIdCounts
            [0..<Suc (nat (sint MAX_FEEDBACK_ID))] 0)"

text \<open>Lines 276 to 309: the loop over the guess words, with the comparison of line 304.\<close>

fun scoreGuesses ::
  "WordleGame \<Rightarrow> Word list \<Rightarrow> int32_t \<Rightarrow> Word \<Rightarrow> error + WordleGame \<times> Word" where
  "scoreGuesses game [] leastPossibleSolutions bestGuess = Inr (game, bestGuess)"
| "scoreGuesses game (potentialGuess # rest) leastPossibleSolutions bestGuess =
     (case scoreGuess game potentialGuess of
        Inl e \<Rightarrow> Inl e
      | Inr (game', numberRemainingPossibleSolutions) \<Rightarrow>
          if numberRemainingPossibleSolutions <s leastPossibleSolutions
             \<or> leastPossibleSolutions <s 0
          then scoreGuesses game' rest numberRemainingPossibleSolutions potentialGuess
          else scoreGuesses game' rest leastPossibleSolutions bestGuess)"

text \<open>
  \<open>getGuess\<close> returns the guess and the game as the call leaves it. The text written
  to \<open>std::cout\<close> is computed and dropped; only its throws are kept.
  \<open>(*guessWords)[0]\<close> on an empty vector is \<open>OutOfRange\<close>.
\<close>

definition getGuess :: "WordleGame \<Rightarrow> error + Word \<times> WordleGame" where
  "getGuess game =
     (if length (feedbacks game) = 0 then
        (case Word_new ''roate'' of Inl e \<Rightarrow> Inl e | Inr w \<Rightarrow> Inr (w, game))
      else
        (case guessWords game of
           [] \<Rightarrow> Inl OutOfRange
         | bestGuess # _ \<Rightarrow>
             (case countPossibleSolutions game (answerWords game) 0 of
                Inl e \<Rightarrow> Inl e
              | Inr numPossibleSolutions \<Rightarrow>
                  (case (if numPossibleSolutions <s 100
                         then printPossibleSolutions game (answerWords game)
                         else Inr []) of
                     Inl e \<Rightarrow> Inl e
                   | Inr out \<Rightarrow>
                       (case (if numPossibleSolutions \<le>s 2
                              then firstPossibleSolution game (answerWords game)
                              else Inr None) of
                          Inl e \<Rightarrow> Inl e
                        | Inr (Some possibleSolution) \<Rightarrow> Inr (possibleSolution, game)
                        | Inr None \<Rightarrow>
                            (case scoreGuesses game (guessWords game) (- 1) bestGuess of
                               Inl e \<Rightarrow> Inl e
                             | Inr (game', best) \<Rightarrow> Inr (best, game')))))))"

subsection \<open>The feedback prompt of main\<close>

text \<open>
  The \<open>try\<close> block of \<open>main\<close> for one line read: the game after it, \<open>gotFeedback\<close>,
  and what the \<open>catch\<close> wrote to \<open>std::cout\<close>.
\<close>

definition tryPushFeedback :: "WordleGame \<Rightarrow> Word \<Rightarrow> string \<Rightarrow> WordleGame \<times> bool \<times> string list"
  where
  "tryPushFeedback game guess_w line =
     (case GuessFeedback_of_strings (toString guess_w) line of
        Inl e \<Rightarrow> (game, False, [''Invalid feedback!''])
      | Inr guessFeedback \<Rightarrow> (pushFeedback game guessFeedback, True, []))"

text \<open>
  The \<open>do ... while (!gotFeedback)\<close> loop over the lines of \<open>std::cin\<close>: the game, the
  lines left and the output. At the end of the input \<open>std::getline\<close> fails for ever and the
  loop never ends: \<open>None\<close>.
\<close>

fun readFeedback ::
  "WordleGame \<Rightarrow> Word \<Rightarrow> string list \<Rightarrow> (WordleGame \<times> string list \<times> string list) option"
  where
  "readFeedback game guess_w [] = None"
| "readFeedback game guess_w (line # rest) =
     (case tryPushFeedback game guess_w line of
        (game', gotFeedback, out) \<Rightarrow>
          if gotFeedback then Some (game', rest, ''feedback: '' # out)
          else
            (case readFeedback game' guess_w rest of
               None \<Rightarrow> None
             | Some (game'', rest', out') \<Rightarrow>
                 Some (game'', rest', ''feedback: '' # out @ out')))"

section \<open>Specification-side definitions\<close>

text \<open>
  The outcome array of the spec's scenario: both words built from their texts, the feedback
  computed, its \<open>feedback\<close> array read.
\<close>

definition outcomeArray :: "string \<Rightarrow> string \<Rightarrow> error + Feedback list" where
  "outcomeArray guessString solutionString =
     (case Word_new guessString of
        Inl e \<Rightarrow> Inl e
      | Inr g \<Rightarrow>
          (case Word_new solutionString of
             Inl e \<Rightarrow> Inl e
           | Inr s \<Rightarrow>
               (case computeFeedback g s of
                  Inl e \<Rightarrow> Inl e
                | Inr gf \<Rightarrow> Inr (feedback gf))))"

text \<open>
  The candidates of the spec: the answer words consistent with the stack, in
  vocabulary order. \<open>bucketSize\<close> is \<open>n_k\<close>, and \<open>sumOfSquares\<close> the spec's score,
  summed over the keys \<open>0 .. MAX_FEEDBACK_ID\<close>.
\<close>

definition candidateSolutions :: "WordleGame \<Rightarrow> Word list" where
  "candidateSolutions game =
     filter (\<lambda>s. isPossibleAnswer game s = Inr True) (answerWords game)"

definition bucketSize :: "WordleGame \<Rightarrow> Word \<Rightarrow> int32_t \<Rightarrow> nat" where
  "bucketSize game g k =
     length (filter (\<lambda>s. computeFeedbackId g s = Inr k) (candidateSolutions game))"

definition sumOfSquares :: "WordleGame \<Rightarrow> Word \<Rightarrow> nat" where
  "sumOfSquares game g =
     (\<Sum>k\<leftarrow>[0..<Suc (nat (sint MAX_FEEDBACK_ID))]. (bucketSize game g (word_of_nat k))\<^sup>2)"

text \<open>
  The score line 304 compares for one guess: the value of
  \<open>numberRemainingPossibleSolutions\<close> read as a signed integer, \<open>None\<close> when the
  scoring of that guess throws.
\<close>

definition guessScore :: "WordleGame \<Rightarrow> Word \<Rightarrow> int option" where
  "guessScore game g =
     (case scoreGuess game g of Inl e \<Rightarrow> None | Inr (game', n) \<Rightarrow> Some (sint n))"

text \<open>
  The \<open>Word\<close> of a text, for the concrete inputs of the examples (a text that is not a
  word gives the empty object).
\<close>

definition theWord :: "string \<Rightarrow> Word" where
  "theWord s =
     (case Word_new s of Inl e \<Rightarrow> \<lparr>letters = [], letterPositionMap = []\<rparr> | Inr w \<Rightarrow> w)"

definition theFeedback :: "string \<Rightarrow> string \<Rightarrow> GuessFeedback" where
  "theFeedback g f =
     (case GuessFeedback_of_strings g f of
        Inl e \<Rightarrow> \<lparr>guess = [], feedback = []\<rparr>
      | Inr gf \<Rightarrow> gf)"

text \<open>
  Three games of the examples, each after the first guess "roate": one with four
  candidates, one with two, one with none.
\<close>

definition gameFour :: WordleGame where
  "gameFour =
     pushFeedback
       (WordleGame_new [theWord ''roate'']
          [theWord ''apple'', theWord ''angle'', theWord ''ample'', theWord ''maple''])
       (theFeedback ''roate'' ''rryrg'')"

definition gameTwo :: WordleGame where
  "gameTwo =
     pushFeedback (WordleGame_new [theWord ''apple''] [theWord ''angle'', theWord ''ample''])
       (theFeedback ''roate'' ''rryrg'')"

definition gameNone :: WordleGame where
  "gameNone =
     pushFeedback (WordleGame_new [theWord ''maple''] [theWord ''apple'', theWord ''angle''])
       (theFeedback ''roate'' ''ggggg'')"

text \<open>
  A game whose answer file holds one word 46341 times, then two other words, and whose
  guess file is empty: three different candidates, of which 46341 entries fall into one
  bucket, the least number whose square is above the largest \<open>int32_t\<close>.
\<close>

definition gameOverflow :: WordleGame where
  "gameOverflow =
     pushFeedback
       (WordleGame_new []
          (replicate 46341 (theWord ''apple'') @ [theWord ''angle'', theWord ''ample'']))
       (theFeedback ''roate'' ''rryrg'')"

text \<open>
  A game whose answer file holds one word three times, so that one word is consistent with
  the stack and three entries are; and a game made from two empty word files.
\<close>

definition gameRepeated :: WordleGame where
  "gameRepeated =
     pushFeedback
       (WordleGame_new [theWord ''maple'']
          [theWord ''angle'', theWord ''angle'', theWord ''angle''])
       (theFeedback ''roate'' ''rryrg'')"

definition gameEmpty :: WordleGame where
  "gameEmpty = pushFeedback (WordleGame_new [] []) (theFeedback ''roate'' ''rrrrr'')"

section \<open>Auxiliary definitions of the proofs\<close>

text \<open>One step of the constructor loop of \<open>Word\<close>, on each field.\<close>

definition stepLetters :: "string \<Rightarrow> nat \<Rightarrow> Letter list \<Rightarrow> Letter list" where
  "stepLetters s i l = l[i := s ! i]"

definition stepMap :: "string \<Rightarrow> nat \<Rightarrow> bool list list \<Rightarrow> bool list list" where
  "stepMap s i m =
     (case indexForLetter (s ! i) of Inl e \<Rightarrow> m | Inr k \<Rightarrow> m[k := (m ! k)[i := True]])"

text \<open>
  The choice of the loop over the guess words, on the scores as integers: the comparison of
  line 304 with \<open>least\<close> and \<open>best\<close> carried along.
\<close>

fun bestOf :: "('a \<Rightarrow> int) \<Rightarrow> 'a list \<Rightarrow> int \<Rightarrow> 'a \<Rightarrow> 'a" where
  "bestOf f [] least best = best"
| "bestOf f (x # xs) least best =
     (if f x < least \<or> least < 0 then bestOf f xs (f x) x else bestOf f xs least best)"

text \<open>A code that fits its 2-bit field, and the key of five codes written out.\<close>

definition twoBits :: "Feedback \<Rightarrow> bool" where
  "twoBits f = (f AND 3 = f)"

definition pack5 ::
  "Feedback \<Rightarrow> Feedback \<Rightarrow> Feedback \<Rightarrow> Feedback \<Rightarrow> Feedback \<Rightarrow> int32_t" where
  "pack5 a b c d e =
     push_bit 0 (ucast a) OR push_bit 2 (ucast b) OR push_bit 4 (ucast c) OR
     push_bit 6 (ucast d) OR push_bit 8 (ucast e)"

text \<open>
  The code \<open>computeFeedbackId\<close> gives position \<open>i\<close>, read off the letters of the two
  words, and the check \<open>isConsistentWith\<close> makes at one position (\<open>Inr True\<close>: the
  loop goes on).
\<close>

definition codeAt :: "Word \<Rightarrow> Word \<Rightarrow> nat \<Rightarrow> Feedback" where
  "codeAt g s i =
     (if letters s ! i = letters g ! i then FEEDBACK_IN_POSITION
      else if letters g ! i \<in> set (letters s) then FEEDBACK_IN_WORD
      else FEEDBACK_NOT_IN_WORD)"

definition checkPosition :: "GuessFeedback \<Rightarrow> Word \<Rightarrow> nat \<Rightarrow> error + bool" where
  "checkPosition gf w i =
     (if feedback gf ! i = FEEDBACK_NOT_IN_WORD then
        (case containsLetter w (guess gf ! i) of Inl e \<Rightarrow> Inl e | Inr b \<Rightarrow> Inr (\<not> b))
      else if feedback gf ! i = FEEDBACK_IN_WORD then
        (case containsLetter w (guess gf ! i) of
           Inl e \<Rightarrow> Inl e
         | Inr b \<Rightarrow> Inr (b \<and> letterAt w i \<noteq> guess gf ! i))
      else if feedback gf ! i = FEEDBACK_IN_POSITION then Inr (letterAt w i = guess gf ! i)
      else Inr True)"

section \<open>Facts about Word\<close>

lemma indexForLetter_cases:
  "indexForLetter c = Inl InvalidLetter \<or> (\<exists>k<26. indexForLetter c = Inr k)"
  by (auto simp: indexForLetter_def less_eq_char_def)

lemma indexForLetter_inj:
  assumes "indexForLetter c = Inr k" "indexForLetter d = Inr k"
  shows "c = d"
proof -
  have c: "97 \<le> (of_char c :: nat)" "indexForLetter c = Inr (of_char c - 97)"
    using assms(1) by (auto simp: indexForLetter_def less_eq_char_def split: if_splits)
  have d: "97 \<le> (of_char d :: nat)" "indexForLetter d = Inr (of_char d - 97)"
    using assms(2) by (auto simp: indexForLetter_def less_eq_char_def split: if_splits)
  have "(of_char c :: nat) - 97 = of_char d - 97"
    using assms c(2) d(2) by simp
  then have "(of_char c :: nat) = of_char d"
    using c(1) d(1) by linarith
  then show ?thesis
    by simp
qed

lemma Word_loop_Cons:
  "Word_loop s (i # js) w =
     (case indexForLetter (s ! i) of
        Inl e \<Rightarrow> Inl e
      | Inr k \<Rightarrow> Word_loop s js (w\<lparr>letters := stepLetters s i (letters w),
                    letterPositionMap := stepMap s i (letterPositionMap w)\<rparr>))"
  by (simp add: stepLetters_def stepMap_def Let_def split: sum.splits)

lemma Word_loop_eq:
  "Word_loop s js w =
     (if \<forall>i\<in>set js. indexForLetter (s ! i) \<noteq> Inl InvalidLetter
      then Inr (w\<lparr>letters := fold (stepLetters s) js (letters w),
                  letterPositionMap := fold (stepMap s) js (letterPositionMap w)\<rparr>)
      else Inl InvalidLetter)"
proof (induction js arbitrary: w)
  case Nil
  then show ?case by simp
next
  case (Cons i js)
  show ?case
    using indexForLetter_cases [of "s ! i"]
    by (auto simp: Word_loop_Cons Cons.IH simp del: Word_loop.simps)
qed

lemma stepMap_length: "length (stepMap s i m) = length m"
  by (simp add: stepMap_def split: sum.splits)

lemma stepMap_row_length: "length (stepMap s i m ! k) = length (m ! k)"
proof (cases "indexForLetter (s ! i)")
  case (Inl e)
  then show ?thesis by (simp add: stepMap_def)
next
  case (Inr k')
  show ?thesis
  proof (cases "k' < length m")
    case True
    then show ?thesis using Inr by (cases "k' = k") (simp_all add: stepMap_def)
  next
    case False
    then show ?thesis using Inr by (simp add: stepMap_def list_update_beyond)
  qed
qed

lemma stepMap_bit:
  assumes "k < length m" "j < length (m ! k)" "indexForLetter (s ! i) = Inr k'" "k' < length m"
  shows "stepMap s i m ! k ! j = (m ! k ! j \<or> (j = i \<and> k' = k))"
proof (cases "k' = k")
  case True
  then show ?thesis
    using assms by (cases "j = i") (simp_all add: stepMap_def)
next
  case False
  then show ?thesis
    using assms by (simp add: stepMap_def)
qed

lemma fold_stepMap_length: "length (fold (stepMap s) js m) = length m"
  by (induction js arbitrary: m) (simp_all add: stepMap_length)

lemma fold_stepMap_row_length: "length (fold (stepMap s) js m ! k) = length (m ! k)"
  by (induction js arbitrary: m) (simp_all add: stepMap_row_length)

lemma fold_stepMap_bit:
  assumes "k < length m" "j < length (m ! k)"
    and "\<forall>i\<in>set js. \<exists>k'<length m. indexForLetter (s ! i) = Inr k'"
  shows "fold (stepMap s) js m ! k ! j =
           (m ! k ! j \<or> (j \<in> set js \<and> indexForLetter (s ! j) = Inr k))"
  using assms
proof (induction js arbitrary: m)
  case Nil
  then show ?case by simp
next
  case (Cons i js)
  from Cons.prems(3) obtain k' where k': "k' < length m" "indexForLetter (s ! i) = Inr k'"
    by auto
  have step: "stepMap s i m ! k ! j = (m ! k ! j \<or> (j = i \<and> k' = k))"
    using Cons.prems(1,2) k' by (intro stepMap_bit)
  have "fold (stepMap s) js (stepMap s i m) ! k ! j =
          (stepMap s i m ! k ! j \<or> (j \<in> set js \<and> indexForLetter (s ! j) = Inr k))"
    using Cons.prems by (intro Cons.IH) (simp_all only: stepMap_length stepMap_row_length, auto)
  then show ?case
    using step k' by (simp only: fold_simps comp_apply) auto
qed

lemma fold_stepLetters:
  "n \<le> length l \<Longrightarrow> length s = length l \<Longrightarrow> fold (stepLetters s) [0..<n] l = take n s @ drop n l"
proof (induction n)
  case 0
  then show ?case by simp
next
  case (Suc n)
  then have "fold (stepLetters s) [0..<n] l = take n s @ drop n l"
    by simp
  then have "fold (stepLetters s) [0..<Suc n] l = (take n s @ drop n l)[n := s ! n]"
    by (simp add: stepLetters_def)
  also have "\<dots> = take n s @ (drop n l)[0 := s ! n]"
    using Suc.prems by (simp add: list_update_append)
  also have "drop n l = l ! n # drop (Suc n) l"
    using Suc.prems by (simp add: Cons_nth_drop_Suc)
  also have "take n s @ (l ! n # drop (Suc n) l)[0 := s ! n] = take (Suc n) s @ drop (Suc n) l"
    using Suc.prems by (simp add: take_Suc_conv_app_nth)
  finally show ?case .
qed

lemma Word_new_eq:
  "Word_new s =
     (if length s \<noteq> WORD_LENGTH then Inl InvalidWordLength
      else if \<forall>i<WORD_LENGTH. indexForLetter (s ! i) \<noteq> Inl InvalidLetter
      then Inr \<lparr>letters = s,
                letterPositionMap = fold (stepMap s) [0..<WORD_LENGTH]
                  (replicate NUMBER_OF_LETTERS (replicate WORD_LENGTH False))\<rparr>
      else Inl InvalidLetter)"
proof (cases "length s = WORD_LENGTH")
  case False
  then show ?thesis by (simp add: Word_new_def)
next
  case True
  have "(\<forall>i\<in>set [0..<WORD_LENGTH]. indexForLetter (s ! i) \<noteq> Inl InvalidLetter) =
          (\<forall>i<WORD_LENGTH. indexForLetter (s ! i) \<noteq> Inl InvalidLetter)"
    by auto
  then show ?thesis
    using True by (simp add: Word_new_def Word_loop_eq fold_stepLetters del: set_upt)
qed

lemma is_Word_length: "is_Word w \<Longrightarrow> length (letters w) = WORD_LENGTH"
  by (simp add: is_Word_def Word_new_eq split: if_splits)

lemma is_Word_letter:
  assumes "is_Word w" "i < WORD_LENGTH"
  shows "\<exists>k<NUMBER_OF_LETTERS. indexForLetter (letters w ! i) = Inr k"
proof -
  have "indexForLetter (letters w ! i) \<noteq> Inl InvalidLetter"
    using assms by (simp add: is_Word_def Word_new_eq split: if_splits)
  then show ?thesis
    using indexForLetter_cases [of "letters w ! i"] by (simp add: NUMBER_OF_LETTERS_def)
qed

lemma is_Word_map:
  assumes "is_Word w"
  shows "letterPositionMap w = fold (stepMap (letters w)) [0..<WORD_LENGTH]
           (replicate NUMBER_OF_LETTERS (replicate WORD_LENGTH False))"
proof -
  have "Inr w = Inr \<lparr>letters = letters w,
      letterPositionMap = fold (stepMap (letters w)) [0..<WORD_LENGTH]
        (replicate NUMBER_OF_LETTERS (replicate WORD_LENGTH False))\<rparr>"
    using assms by (simp add: is_Word_def Word_new_eq split: if_splits)
  then have "w = \<lparr>letters = letters w,
      letterPositionMap = fold (stepMap (letters w)) [0..<WORD_LENGTH]
        (replicate NUMBER_OF_LETTERS (replicate WORD_LENGTH False))\<rparr>"
    by (simp only: sum.inject)
  then have "letterPositionMap w = letterPositionMap \<lparr>letters = letters w,
      letterPositionMap = fold (stepMap (letters w)) [0..<WORD_LENGTH]
        (replicate NUMBER_OF_LETTERS (replicate WORD_LENGTH False))\<rparr>"
    by (rule arg_cong)
  then show ?thesis by simp
qed

lemma is_Word_bit:
  assumes "is_Word w" "k < NUMBER_OF_LETTERS" "j < WORD_LENGTH"
  shows "letterPositionMap w ! k ! j = (indexForLetter (letters w ! j) = Inr k)"
proof -
  let ?m = "replicate NUMBER_OF_LETTERS (replicate WORD_LENGTH False)"
  have "fold (stepMap (letters w)) [0..<WORD_LENGTH] ?m ! k ! j =
          (?m ! k ! j \<or> (j \<in> set [0..<WORD_LENGTH] \<and> indexForLetter (letters w ! j) = Inr k))"
    using assms is_Word_letter [OF assms(1)] by (intro fold_stepMap_bit) auto
  then show ?thesis
    using assms by (simp add: is_Word_map)
qed

lemma is_Word_row_length:
  assumes "is_Word w" "k < NUMBER_OF_LETTERS"
  shows "length (letterPositionMap w ! k) = WORD_LENGTH"
  using assms by (simp add: is_Word_map fold_stepMap_row_length)

lemma containsLetter_invalid:
  "indexForLetter c = Inl e \<Longrightarrow> containsLetter w c = Inl e"
  by (simp add: containsLetter_def)

lemma containsLetter_is_Word:
  assumes "is_Word w" "indexForLetter c = Inr k"
  shows "containsLetter w c = Inr (c \<in> set (letters w))"
proof -
  have k: "k < NUMBER_OF_LETTERS"
    using indexForLetter_cases [of c] assms(2) by (auto simp: NUMBER_OF_LETTERS_def)
  have "list_ex id (letterPositionMap w ! k) = (\<exists>j<WORD_LENGTH. letterPositionMap w ! k ! j)"
    using is_Word_row_length [OF assms(1) k] by (simp add: list_ex_length)
  also have "\<dots> = (\<exists>j<WORD_LENGTH. indexForLetter (letters w ! j) = Inr k)"
    using is_Word_bit [OF assms(1) k] by blast
  also have "\<dots> = (\<exists>j<WORD_LENGTH. letters w ! j = c)"
  proof -
    have "indexForLetter x = Inr k \<longleftrightarrow> x = c" for x
      using assms(2) indexForLetter_inj [of x k c] by auto
    then show ?thesis by simp
  qed
  also have "\<dots> = (c \<in> set (letters w))"
    using is_Word_length [OF assms(1)] by (simp add: in_set_conv_nth)
  finally show ?thesis
    using assms(2) by (simp add: containsLetter_def)
qed

section \<open>Facts about the packed feedback key\<close>

lemma bit_three: "bit (3 :: 'a::len word) n \<longleftrightarrow> n < 2 \<and> n < LENGTH('a)"
proof -
  have eq: "(3 :: 'a word) = mask 2"
    by (simp add: mask_eq_exp_minus_1)
  show ?thesis
    by (subst eq) (auto simp: bit_mask_iff)
qed

lemma bit_three_int: "bit (3 :: int) n \<longleftrightarrow> n < 2"
proof -
  have eq: "(3 :: int) = mask 2"
    by (simp add: mask_eq_exp_minus_1)
  show ?thesis
    by (subst eq) (auto simp: bit_mask_iff)
qed

lemma upt_5: "[0..<5] = [0, 1, 2, 3, 4]"
  by (simp add: upt_rec)

lemma packFeedback_unfold:
  "packFeedback fs = pack5 (fs ! 0) (fs ! 1) (fs ! 2) (fs ! 3) (fs ! 4)"
  by (simp add: packFeedback_def pack5_def WORD_LENGTH_def upt_5 or.assoc)

lemma twoBits_bit: "twoBits f \<Longrightarrow> bit f n \<Longrightarrow> n < 2"
proof -
  assume a: "twoBits f" "bit f n"
  then have "bit (f AND 3) n" by (simp add: twoBits_def)
  then show "n < 2" by (simp add: bit_and_iff bit_three bit_three_int)
qed


lemma bit_pack5:
  assumes "\<And>n. bit a n \<Longrightarrow> n < 2" "\<And>n. bit b n \<Longrightarrow> n < 2" "\<And>n. bit c n \<Longrightarrow> n < 2"
    "\<And>n. bit d n \<Longrightarrow> n < 2" "\<And>n. bit e n \<Longrightarrow> n < 2"
  shows "bit (pack5 a b c d e) n \<longleftrightarrow>
    (n < 2 \<and> bit a n) \<or> (2 \<le> n \<and> n < 4 \<and> bit b (n - 2)) \<or> (4 \<le> n \<and> n < 6 \<and> bit c (n - 4)) \<or>
    (6 \<le> n \<and> n < 8 \<and> bit d (n - 6)) \<or> (8 \<le> n \<and> n < 10 \<and> bit e (n - 8))"
proof -
  have "bit (pack5 a b c d e) n \<longleftrightarrow>
    (bit a n) \<or> (2 \<le> n \<and> bit b (n - 2)) \<or> (4 \<le> n \<and> bit c (n - 4)) \<or>
    (6 \<le> n \<and> bit d (n - 6)) \<or> (8 \<le> n \<and> bit e (n - 8))"
    using assms(1) [of n] assms(2) [of "n - 2"] assms(3) [of "n - 4"] assms(4) [of "n - 6"] assms(5) [of "n - 8"]
    apply (simp add: pack5_def bit_simps)
    apply (cases "bit a n"; cases "bit b (n - 2)"; cases "bit c (n - 4)"; cases "bit d (n - 6)"; cases "bit e (n - 8)"; simp)
    apply arith+
    done
  then show ?thesis
    using assms(1) [of n] assms(2) [of "n - 2"] assms(3) [of "n - 4"] assms(4) [of "n - 6"] assms(5) [of "n - 8"]
    apply (cases "bit a n"; cases "bit b (n - 2)"; cases "bit c (n - 4)"; cases "bit d (n - 6)"; cases "bit e (n - 8)"; simp)
    apply arith+
    done
qed

lemma pack5_le:
  assumes "a \<in> {0, 1, 2}" "b \<in> {0, 1, 2}" "c \<in> {0, 1, 2}" "d \<in> {0, 1, 2}" "e \<in> {0, 1, 2}"
  shows "pack5 a b c d e \<le> 682"
  using assms by (auto simp: pack5_def)

lemma MAX_FEEDBACK_ID_eq: "MAX_FEEDBACK_ID = 682"
  by (simp add: MAX_FEEDBACK_ID_def FEEDBACK_IN_POSITION_def)

lemma sint_le_682:
  fixes x :: int32_t
  assumes "x \<le> 682"
  shows "0 \<le> sint x" "sint x \<le> 682" "sint x = uint x" "unat x < 683"
proof -
  have u: "uint x \<le> 682"
    using assms by (simp add: word_le_def)
  then have "uint x < 2 ^ 31" by simp
  show "unat x < 683" using assms by (simp add: word_le_nat_alt)
  have "signed_take_bit 31 (uint x) = uint x"
  proof (rule signed_take_bit_int_eq_self)
    have "- (2 ^ 31) \<le> (0 :: int)" by simp
    also have "0 \<le> uint x" by simp
    finally show "- (2 ^ 31) \<le> uint x" .
    show "uint x < 2 ^ 31" using u by simp
  qed
  then show "sint x = uint x"
    by (simp add: sint_uint)
  then show "0 \<le> sint x" "sint x \<le> 682" using u by simp_all
qed

lemma feedbackField_pack5:
  assumes "\<And>n. bit a n \<Longrightarrow> n < 2" "\<And>n. bit b n \<Longrightarrow> n < 2" "\<And>n. bit c n \<Longrightarrow> n < 2"
    "\<And>n. bit d n \<Longrightarrow> n < 2" "\<And>n. bit e n \<Longrightarrow> n < 2"
  shows "feedbackField (pack5 a b c d e) 0 = a"
    and "feedbackField (pack5 a b c d e) 1 = b"
    and "feedbackField (pack5 a b c d e) 2 = c"
    and "feedbackField (pack5 a b c d e) 3 = d"
    and "feedbackField (pack5 a b c d e) 4 = e"
proof -
  note bp = bit_pack5 [OF assms]
  show "feedbackField (pack5 a b c d e) 0 = a"
    by (rule bit_eqI)
      (use assms(1) in \<open>auto simp: feedbackField_def bit_simps bit_signed_drop_bit_iff bit_three bit_three_int bp\<close>)
  show "feedbackField (pack5 a b c d e) 1 = b"
    by (rule bit_eqI)
      (use assms(2) in \<open>auto simp: feedbackField_def bit_simps bit_signed_drop_bit_iff bit_three bit_three_int bp\<close>)
  show "feedbackField (pack5 a b c d e) 2 = c"
    by (rule bit_eqI)
      (use assms(3) in \<open>auto simp: feedbackField_def bit_simps bit_signed_drop_bit_iff bit_three bit_three_int bp\<close>)
  show "feedbackField (pack5 a b c d e) 3 = d"
    by (rule bit_eqI)
      (use assms(4) in \<open>auto simp: feedbackField_def bit_simps bit_signed_drop_bit_iff bit_three bit_three_int bp\<close>)
  show "feedbackField (pack5 a b c d e) 4 = e"
    by (rule bit_eqI)
      (use assms(5) in \<open>auto simp: feedbackField_def bit_simps bit_signed_drop_bit_iff bit_three bit_three_int bp\<close>)
qed

lemma codeAt_cases:
  "codeAt g s i = 0 \<or> codeAt g s i = 1 \<or> codeAt g s i = 2"
  by (simp add: codeAt_def FEEDBACK_IN_POSITION_def FEEDBACK_IN_WORD_def FEEDBACK_NOT_IN_WORD_def)

lemma codeAt_bit: "bit (codeAt g s i) n \<Longrightarrow> n < 2"
proof -
  have "twoBits (codeAt g s i)"
    using codeAt_cases [of g s i] by (auto simp: twoBits_def)
  then show "bit (codeAt g s i) n \<Longrightarrow> n < 2"
    by (rule twoBits_bit)
qed

lemma feedbackCode_is_Word:
  assumes "is_Word g" "is_Word s" "i < WORD_LENGTH"
  shows "feedbackCode g s i = Inr (codeAt g s i)"
proof -
  obtain k where k: "indexForLetter (letters g ! i) = Inr k"
    using is_Word_letter [OF assms(1,3)] by blast
  show ?thesis
    by (simp add: feedbackCode_def codeAt_def letterAt_def containsLetter_is_Word [OF assms(2) k])
qed

lemma computeFeedbackId_loop_eq:
  assumes "is_Word g" "is_Word s" "\<forall>i\<in>set js. i < WORD_LENGTH"
  shows "computeFeedbackId_loop g s js r =
           Inr (fold (\<lambda>i r. r OR push_bit (2 * i) (ucast (codeAt g s i))) js r)"
  using assms(3)
proof (induction js arbitrary: r)
  case Nil
  then show ?case by simp
next
  case (Cons i js)
  then show ?case
    by (simp add: feedbackCode_is_Word [OF assms(1,2)])
qed

lemma computeFeedbackId_eq:
  assumes "is_Word g" "is_Word s"
  shows "computeFeedbackId g s =
           Inr (pack5 (codeAt g s 0) (codeAt g s 1) (codeAt g s 2) (codeAt g s 3) (codeAt g s 4))"
proof -
  have "computeFeedbackId g s =
          Inr (fold (\<lambda>i r. r OR push_bit (2 * i) (ucast (codeAt g s i))) [0..<WORD_LENGTH] 0)"
    unfolding computeFeedbackId_def
    by (rule computeFeedbackId_loop_eq [OF assms]) simp
  then show ?thesis
    by (simp add: WORD_LENGTH_def upt_5 pack5_def or.assoc)
qed

lemma computeFeedbackId_packFeedback:
  assumes "is_Word g" "is_Word s"
  shows "computeFeedbackId g s = Inr (packFeedback (map (codeAt g s) [0..<WORD_LENGTH]))"
  by (simp add: computeFeedbackId_eq [OF assms] packFeedback_unfold WORD_LENGTH_def upt_5)

lemma GuessFeedback_of_id_eq:
  "GuessFeedback_of_id g k =
     \<lparr>guess = [letterAt g 0, letterAt g 1, letterAt g 2, letterAt g 3, letterAt g 4],
      feedback = [feedbackField k 0, feedbackField k 1, feedbackField k 2, feedbackField k 3,
                  feedbackField k 4]\<rparr>"
  by (simp add: GuessFeedback_of_id_def WORD_LENGTH_def upt_5 eval_nat_numeral)

lemma lt_5_cases: "i < 5 \<Longrightarrow> i = 0 \<or> i = 1 \<or> i = 2 \<or> i = 3 \<or> i = (4 :: nat)"
  by arith

lemma GuessFeedback_of_id_nth:
  assumes "i < WORD_LENGTH"
  shows "guess (GuessFeedback_of_id g k) ! i = letters g ! i"
    and "feedback (GuessFeedback_of_id g k) ! i = feedbackField k i"
  using lt_5_cases [of i] assms
  by (auto simp: GuessFeedback_of_id_eq WORD_LENGTH_def letterAt_def)

lemma feedbackField_computed:
  assumes "i < WORD_LENGTH"
  shows "feedbackField (pack5 (codeAt g s 0) (codeAt g s 1) (codeAt g s 2) (codeAt g s 3)
           (codeAt g s 4)) i = codeAt g s i"
  using lt_5_cases [of i] assms
    feedbackField_pack5 [of "codeAt g s 0" "codeAt g s 1" "codeAt g s 2" "codeAt g s 3"
      "codeAt g s 4", OF codeAt_bit codeAt_bit codeAt_bit codeAt_bit codeAt_bit]
  by (auto simp: WORD_LENGTH_def)

lemma computeFeedbackId_field:
  assumes "is_Word g" "is_Word s" "computeFeedbackId g s = Inr k" "i < WORD_LENGTH"
  shows "feedbackField k i = codeAt g s i"
  using assms(3) feedbackField_computed [OF assms(4), of g s]
  by (simp add: computeFeedbackId_eq [OF assms(1,2)])

lemma computeFeedbackId_eq_iff:
  assumes "is_Word g" "is_Word s" "is_Word s'"
  shows "computeFeedbackId g s = computeFeedbackId g s' \<longleftrightarrow>
           (\<forall>i<WORD_LENGTH. codeAt g s i = codeAt g s' i)"
proof
  assume eq: "computeFeedbackId g s = computeFeedbackId g s'"
  obtain k where k: "computeFeedbackId g s = Inr k"
    by (simp add: computeFeedbackId_eq [OF assms(1,2)])
  show "\<forall>i<WORD_LENGTH. codeAt g s i = codeAt g s' i"
  proof (intro allI impI)
    fix i assume i: "i < WORD_LENGTH"
    have "codeAt g s i = feedbackField k i"
      using computeFeedbackId_field [OF assms(1,2) k i] by simp
    also have "\<dots> = codeAt g s' i"
      using computeFeedbackId_field [OF assms(1,3) _ i, of k] eq k by simp
    finally show "codeAt g s i = codeAt g s' i" .
  qed
next
  assume "\<forall>i<WORD_LENGTH. codeAt g s i = codeAt g s' i"
  then show "computeFeedbackId g s = computeFeedbackId g s'"
    by (simp add: computeFeedbackId_eq [OF assms(1,2)] computeFeedbackId_eq [OF assms(1,3)]
        WORD_LENGTH_def)
qed

lemma computeFeedbackId_bounds:
  assumes "is_Word g" "is_Word s" "computeFeedbackId g s = Inr k"
  shows "k \<le> 682"
proof -
  have "pack5 (codeAt g s 0) (codeAt g s 1) (codeAt g s 2) (codeAt g s 3) (codeAt g s 4) \<le> 682"
    using codeAt_cases [of g s 0] codeAt_cases [of g s 1] codeAt_cases [of g s 2]
      codeAt_cases [of g s 3] codeAt_cases [of g s 4]
    by (intro pack5_le) auto
  then show ?thesis
    using assms(3) by (simp add: computeFeedbackId_eq [OF assms(1,2)])
qed

section \<open>Facts about isConsistentWith\<close>

lemma isConsistentWith_loop_Cons:
  "isConsistentWith_loop gf w (i # js) =
     (case checkPosition gf w i of
        Inl e \<Rightarrow> Inl e
      | Inr b \<Rightarrow> if b then isConsistentWith_loop gf w js else Inr False)"
  by (simp add: checkPosition_def split: sum.splits)

lemma isConsistentWith_loop_True:
  "isConsistentWith_loop gf w js = Inr True \<longleftrightarrow>
     (\<forall>i\<in>set js. checkPosition gf w i = Inr True)"
proof (induction js)
  case Nil
  then show ?case by simp
next
  case (Cons i js)
  then show ?case
    by (auto simp: isConsistentWith_loop_Cons simp del: isConsistentWith_loop.simps
        split: sum.splits)
qed

lemma isConsistentWith_loop_total:
  assumes "\<forall>i\<in>set js. \<exists>b. checkPosition gf w i = Inr b"
  shows "isConsistentWith_loop gf w js = Inr (\<forall>i\<in>set js. checkPosition gf w i = Inr True)"
  using assms
proof (induction js)
  case Nil
  then show ?case by simp
next
  case (Cons i js)
  then show ?case
    by (auto simp: isConsistentWith_loop_Cons simp del: isConsistentWith_loop.simps
        split: sum.splits)
qed

lemma isConsistentWith_True:
  "isConsistentWith gf w = Inr True \<longleftrightarrow>
     (\<forall>i<WORD_LENGTH. checkPosition gf w i = Inr True)"
  by (auto simp: isConsistentWith_def isConsistentWith_loop_True)

lemma isConsistentWith_total:
  assumes "\<forall>i<WORD_LENGTH. \<exists>b. checkPosition gf w i = Inr b"
  shows "isConsistentWith gf w = Inr (\<forall>i<WORD_LENGTH. checkPosition gf w i = Inr True)"
proof -
  have "isConsistentWith_loop gf w [0..<WORD_LENGTH] =
          Inr (\<forall>i\<in>set [0..<WORD_LENGTH]. checkPosition gf w i = Inr True)"
    using assms by (intro isConsistentWith_loop_total) auto
  moreover have "(\<forall>i\<in>set [0..<WORD_LENGTH]. checkPosition gf w i = Inr True) =
          (\<forall>i<WORD_LENGTH. checkPosition gf w i = Inr True)"
    by auto
  ultimately show ?thesis
    by (simp only: isConsistentWith_def)
qed

text \<open>A position that passes for one word never throws for another.\<close>

lemma checkPosition_no_throw:
  assumes "is_Word w0" "checkPosition gf w0 i = Inr True" "is_Word w"
  shows "\<exists>b. checkPosition gf w i = Inr b"
proof (cases "feedback gf ! i = FEEDBACK_NOT_IN_WORD \<or> feedback gf ! i = FEEDBACK_IN_WORD")
  case False
  then show ?thesis
    by (auto simp: checkPosition_def)
next
  case True
  have "\<exists>k. indexForLetter (guess gf ! i) = Inr k"
  proof (rule ccontr)
    assume "\<nexists>k. indexForLetter (guess gf ! i) = Inr k"
    then have "indexForLetter (guess gf ! i) = Inl InvalidLetter"
      using indexForLetter_cases [of "guess gf ! i"] by auto
    then have "containsLetter w0 (guess gf ! i) = Inl InvalidLetter"
      by (rule containsLetter_invalid)
    then show False
      using True assms(2) by (auto simp: checkPosition_def split: if_splits)
  qed
  then obtain k where "indexForLetter (guess gf ! i) = Inr k" ..
  then have "containsLetter w (guess gf ! i) = Inr (guess gf ! i \<in> set (letters w))"
    by (rule containsLetter_is_Word [OF assms(3)])
  then show ?thesis
    by (auto simp: checkPosition_def)
qed

lemma isConsistentWith_no_throw:
  assumes "is_Word w0" "isConsistentWith gf w0 = Inr True" "is_Word w"
  shows "\<exists>b. isConsistentWith gf w = Inr b"
proof -
  have "\<forall>i<WORD_LENGTH. \<exists>b. checkPosition gf w i = Inr b"
    using assms checkPosition_no_throw by (simp add: isConsistentWith_True)
  then show ?thesis
    by (simp add: isConsistentWith_total)
qed

text \<open>The check against a feedback decoded from a computed key compares the codes.\<close>

lemma checkPosition_computed:
  assumes "is_Word g" "is_Word s" "is_Word s'" "computeFeedbackId g s' = Inr k"
    "i < WORD_LENGTH"
  shows "checkPosition (GuessFeedback_of_id g k) s i = Inr (codeAt g s i = codeAt g s' i)"
proof -
  obtain j where j: "indexForLetter (letters g ! i) = Inr j"
    using is_Word_letter [OF assms(1,5)] by blast
  have c: "containsLetter s (letters g ! i) = Inr (letters g ! i \<in> set (letters s))"
    by (rule containsLetter_is_Word [OF assms(2) j])
  have f: "feedback (GuessFeedback_of_id g k) ! i = codeAt g s' i"
    using computeFeedbackId_field [OF assms(1,3,4,5)] GuessFeedback_of_id_nth(2) [OF assms(5)]
    by simp
  have l: "guess (GuessFeedback_of_id g k) ! i = letters g ! i"
    by (rule GuessFeedback_of_id_nth(1) [OF assms(5)])
  have m: "letters s ! i \<in> set (letters s)"
    using assms(5) is_Word_length [OF assms(2)] by simp
  show ?thesis
    using codeAt_cases [of g s' i] m
    by (auto simp: checkPosition_def f l c letterAt_def codeAt_def
        FEEDBACK_IN_POSITION_def FEEDBACK_IN_WORD_def FEEDBACK_NOT_IN_WORD_def split: if_splits)
qed

lemma isConsistentWith_computed:
  assumes "is_Word g" "is_Word s" "is_Word s'" "computeFeedbackId g s' = Inr k"
  shows "isConsistentWith (GuessFeedback_of_id g k) s = Inr (computeFeedbackId g s = Inr k)"
proof -
  have "isConsistentWith (GuessFeedback_of_id g k) s =
          Inr (\<forall>i<WORD_LENGTH. checkPosition (GuessFeedback_of_id g k) s i = Inr True)"
    by (rule isConsistentWith_total) (simp add: checkPosition_computed [OF assms])
  also have "(\<forall>i<WORD_LENGTH. checkPosition (GuessFeedback_of_id g k) s i = Inr True) =
          (\<forall>i<WORD_LENGTH. codeAt g s i = codeAt g s' i)"
    by (simp add: checkPosition_computed [OF assms])
  also have "\<dots> = (computeFeedbackId g s = computeFeedbackId g s')"
    by (simp add: computeFeedbackId_eq_iff [OF assms(1,2,3)])
  finally show ?thesis
    by (simp add: assms(4))
qed

section \<open>Concrete words and the range of the key\<close>

lemma is_Word_apple: "is_Word (theWord ''apple'')"
  by code_simp

lemma is_Word_angle: "is_Word (theWord ''angle'')"
  by code_simp

lemma outcomeArray_apple_angle:
  "outcomeArray ''apple'' ''angle'' = Inr [2, 0, 0, 2, 2]"
  by code_simp

lemma sle_682:
  fixes k :: int32_t
  assumes "k \<le> 682"
  shows "0 \<le>s k \<and> k \<le>s MAX_FEEDBACK_ID"
  using sint_le_682 [OF assms] by (simp add: word_sle_eq MAX_FEEDBACK_ID_eq)

lemma counts_size: "nat (sint (MAX_FEEDBACK_ID + 1)) = 683"
  by (simp add: MAX_FEEDBACK_ID_eq)

lemma keys_upt: "Suc (nat (sint MAX_FEEDBACK_ID)) = 683"
  by (simp add: MAX_FEEDBACK_ID_eq)

section \<open>Claims about the feedback key\<close>

lemma containsLetter_error: "containsLetter w c = Inl e \<Longrightarrow> e = InvalidLetter"
  using indexForLetter_cases [of c] by (auto simp: containsLetter_def split: sum.splits)

lemma checkPosition_error: "checkPosition gf w i = Inl e \<Longrightarrow> e = InvalidLetter"
  by (auto simp: checkPosition_def split: if_splits sum.splits dest: containsLetter_error)

lemma isConsistentWith_loop_error:
  "isConsistentWith_loop gf w js = Inl e \<Longrightarrow> e = InvalidLetter"
proof (induction js)
  case Nil
  then show ?case by simp
next
  case (Cons i js)
  then show ?case
    by (auto simp: isConsistentWith_loop_Cons simp del: isConsistentWith_loop.simps
        split: sum.splits if_splits dest: checkPosition_error)
qed

lemma isPossibleAnswer_loop_error:
  "isPossibleAnswer_loop fs w = Inl e \<Longrightarrow> e = InvalidLetter"
proof (induction fs)
  case Nil
  then show ?case by simp
next
  case (Cons gf fs)
  then show ?case
    by (auto simp: isConsistentWith_def split: sum.splits if_splits
        dest: isConsistentWith_loop_error)
qed

lemma isPossibleAnswer_error: "isPossibleAnswer game w = Inl e \<Longrightarrow> e = InvalidLetter"
  unfolding isPossibleAnswer_def by (rule isPossibleAnswer_loop_error)

lemma countFeedbackIds_in_range:
  assumes "is_Word g" "\<forall>s\<in>set ws. is_Word s" "length counts = 683"
  shows "countFeedbackIds game g ws counts \<noteq> Inl OutOfRange"
  using assms(2,3)
proof (induction ws arbitrary: counts)
  case Nil
  then show ?case by simp
next
  case (Cons s ws)
  have s: "is_Word s" using Cons.prems(1) by simp
  obtain k where k: "computeFeedbackId g s = Inr k"
    by (simp add: computeFeedbackId_eq [OF assms(1) s])
  have r: "\<not> (sint k < 0 \<or> length counts \<le> nat (sint k))"
    using sint_le_682 [OF computeFeedbackId_bounds [OF assms(1) s k]] Cons.prems(2) by simp
  show ?case
  proof (cases "isPossibleAnswer game s")
    case (Inl e)
    then show ?thesis
      using isPossibleAnswer_error [OF Inl] by simp
  next
    case (Inr b)
    show ?thesis
    proof (cases b)
      case True
      have "countFeedbackIds game g (s # ws) counts =
              countFeedbackIds game g ws (counts[nat (sint k) := counts ! nat (sint k) + 1])"
        using Inr True k r by simp
      moreover have "countFeedbackIds game g ws (counts[nat (sint k) := counts ! nat (sint k) + 1])
                       \<noteq> Inl OutOfRange"
        using Cons.prems by (intro Cons.IH) simp_all
      ultimately show ?thesis by simp
    next
      case False
      then show ?thesis
        using Inr Cons.IH [of counts] Cons.prems by simp
    qed
  qed
qed

text \<open>
  C2. For all Words \<open>g\<close> and \<open>s\<close>, \<open>computeFeedbackId g s\<close> returns a key, and the
  \<open>GuessFeedback\<close> decoded from that key against \<open>g\<close> (which is what \<open>computeFeedback\<close>
  returns) is consistent with \<open>s\<close>: \<open>isConsistentWith\<close> returns true.
\<close>

theorem solution_consistent_with_own_feedback:
  assumes "is_Word g" "is_Word s"
  shows "\<exists>k. computeFeedbackId g s = Inr k \<and>
             computeFeedback g s = Inr (GuessFeedback_of_id g k) \<and>
             isConsistentWith (GuessFeedback_of_id g k) s = Inr True"
proof -
  obtain k where k: "computeFeedbackId g s = Inr k"
    by (simp add: computeFeedbackId_eq [OF assms])
  have "isConsistentWith (GuessFeedback_of_id g k) s = Inr True"
    using isConsistentWith_computed [OF assms(1,2,2) k] k by simp
  then show ?thesis
    using k by (simp add: computeFeedback_def)
qed

theorem solution_consistent_with_own_feedback_witness:
  "is_Word (theWord ''apple'') \<and> is_Word (theWord ''angle'') \<and>
   (\<exists>k. computeFeedbackId (theWord ''apple'') (theWord ''angle'') = Inr k \<and>
        computeFeedback (theWord ''apple'') (theWord ''angle'') =
          Inr (GuessFeedback_of_id (theWord ''apple'') k) \<and>
        isConsistentWith (GuessFeedback_of_id (theWord ''apple'') k) (theWord ''angle'') =
          Inr True)"
  using solution_consistent_with_own_feedback [OF is_Word_apple is_Word_angle]
    is_Word_apple is_Word_angle
  by blast

text \<open>
  C3, as the code computes it. For the guess "apple" against the solution "angle" the
  outcome array is CORRECT, ABSENT, ABSENT, CORRECT, CORRECT: the solution has no p, and the
  l of the guess stands at the position of the l of the solution.
\<close>

theorem apple_against_angle:
  "outcomeArray ''apple'' ''angle'' =
     Inr [FEEDBACK_IN_POSITION, FEEDBACK_NOT_IN_WORD, FEEDBACK_NOT_IN_WORD,
          FEEDBACK_IN_POSITION, FEEDBACK_IN_POSITION]"
  by (simp add: outcomeArray_apple_angle FEEDBACK_IN_POSITION_def FEEDBACK_NOT_IN_WORD_def)

text \<open>
  C3, as the spec states it, fails: the array of the scenario is not CORRECT, CORRECT,
  ABSENT, PRESENT_ELSEWHERE, CORRECT.
\<close>

theorem apple_against_angle_counterexample:
  "outcomeArray ''apple'' ''angle'' \<noteq>
     Inr [FEEDBACK_IN_POSITION, FEEDBACK_IN_POSITION, FEEDBACK_NOT_IN_WORD,
          FEEDBACK_IN_WORD, FEEDBACK_IN_POSITION]"
  by (simp add: outcomeArray_apple_angle FEEDBACK_IN_POSITION_def FEEDBACK_NOT_IN_WORD_def
      FEEDBACK_IN_WORD_def)

text \<open>
  C4. For every array of 5 codes, each ABSENT, PRESENT_ELSEWHERE or CORRECT_POSITION, the
  key that packs it (2 bits per position, position \<open>i\<close> at bit \<open>2 * i\<close>) is decoded by the
  constructor \<open>GuessFeedback(Word, feedbackId)\<close> into the same array. The packing is the
  one of \<open>computeFeedbackId\<close>, whose key is \<open>packFeedback\<close> of the codes of its five
  positions (\<open>computeFeedbackId_packFeedback\<close>).
\<close>

theorem pack_then_decode:
  assumes "length codes = WORD_LENGTH"
    and "\<forall>c\<in>set codes. c \<in> {FEEDBACK_NOT_IN_WORD, FEEDBACK_IN_WORD, FEEDBACK_IN_POSITION}"
  shows "feedback (GuessFeedback_of_id guessString (packFeedback codes)) = codes"
proof -
  obtain a b c d e where codes: "codes = [a, b, c, d, e]"
    using assms(1) by (auto simp: WORD_LENGTH_def length_Suc_conv eval_nat_numeral)
  have two: "twoBits x" if "x \<in> set codes" for x
    using assms(2) that
    by (auto simp: twoBits_def FEEDBACK_NOT_IN_WORD_def FEEDBACK_IN_WORD_def
        FEEDBACK_IN_POSITION_def)
  have bits: "bit x n \<Longrightarrow> n < 2" if "x \<in> set codes" for x n
    using two [OF that] twoBits_bit by blast
  have ba: "\<And>n. bit a n \<Longrightarrow> n < 2" and bb: "\<And>n. bit b n \<Longrightarrow> n < 2"
    and bc: "\<And>n. bit c n \<Longrightarrow> n < 2" and bd: "\<And>n. bit d n \<Longrightarrow> n < 2"
    and be: "\<And>n. bit e n \<Longrightarrow> n < 2"
    using bits by (auto simp: codes)
  have "packFeedback codes = pack5 a b c d e"
    by (simp add: packFeedback_unfold codes)
  then show ?thesis
    using feedbackField_pack5 [of a b c d e, OF ba bb bc bd be]
    by (simp add: GuessFeedback_of_id_eq codes)
qed

theorem pack_then_decode_witness:
  "length [FEEDBACK_IN_POSITION, FEEDBACK_NOT_IN_WORD, FEEDBACK_IN_WORD, FEEDBACK_IN_WORD,
           FEEDBACK_IN_POSITION] = WORD_LENGTH \<and>
   feedback (GuessFeedback_of_id (theWord ''apple'')
     (packFeedback [FEEDBACK_IN_POSITION, FEEDBACK_NOT_IN_WORD, FEEDBACK_IN_WORD,
                    FEEDBACK_IN_WORD, FEEDBACK_IN_POSITION])) =
     [FEEDBACK_IN_POSITION, FEEDBACK_NOT_IN_WORD, FEEDBACK_IN_WORD, FEEDBACK_IN_WORD,
      FEEDBACK_IN_POSITION]"
  using pack_then_decode [of "[FEEDBACK_IN_POSITION, FEEDBACK_NOT_IN_WORD, FEEDBACK_IN_WORD,
      FEEDBACK_IN_WORD, FEEDBACK_IN_POSITION]" "theWord ''apple''"]
  by (simp add: WORD_LENGTH_def)

text \<open>
  C10. For all Words \<open>g\<close> and \<open>s\<close>, \<open>computeFeedbackId g s\<close> returns a key between 0 and
  \<open>MAX_FEEDBACK_ID\<close> (as signed integers), each of whose five 2-bit fields is 0, 1 or 2.
  So the key is an index inside the vector of \<open>MAX_FEEDBACK_ID + 1\<close> counts, and the
  counting loop of the scoring, run from that vector over any list of Words, never leaves
  it.
\<close>

theorem feedbackId_in_range:
  assumes "is_Word g" "is_Word s" "\<forall>w\<in>set ws. is_Word w"
  shows "\<exists>k. computeFeedbackId g s = Inr k \<and> 0 \<le>s k \<and> k \<le>s MAX_FEEDBACK_ID \<and>
             (\<forall>i<WORD_LENGTH. feedbackField k i \<in>
                {FEEDBACK_NOT_IN_WORD, FEEDBACK_IN_WORD, FEEDBACK_IN_POSITION}) \<and>
             0 \<le> sint k \<and>
             nat (sint k) < length (replicate (nat (sint (MAX_FEEDBACK_ID + 1))) (0 :: int32_t)) \<and>
             countFeedbackIds game g ws (replicate (nat (sint (MAX_FEEDBACK_ID + 1))) 0)
               \<noteq> Inl OutOfRange"
proof -
  obtain k where k: "computeFeedbackId g s = Inr k"
    by (simp add: computeFeedbackId_eq [OF assms(1,2)])
  have le: "k \<le> 682"
    by (rule computeFeedbackId_bounds [OF assms(1,2) k])
  have fields: "\<forall>i<WORD_LENGTH. feedbackField k i \<in>
      {FEEDBACK_NOT_IN_WORD, FEEDBACK_IN_WORD, FEEDBACK_IN_POSITION}"
    using computeFeedbackId_field [OF assms(1,2) k] codeAt_cases [of g s]
    by (auto simp: FEEDBACK_NOT_IN_WORD_def FEEDBACK_IN_WORD_def FEEDBACK_IN_POSITION_def)
  have "countFeedbackIds game g ws (replicate (nat (sint (MAX_FEEDBACK_ID + 1))) 0)
          \<noteq> Inl OutOfRange"
    by (rule countFeedbackIds_in_range [OF assms(1,3)]) (simp add: counts_size)
  then show ?thesis
    using k sle_682 [OF le] sint_le_682 [OF le] fields by (simp add: counts_size)
qed

theorem feedbackId_in_range_witness:
  "is_Word (theWord ''apple'') \<and> is_Word (theWord ''angle'') \<and>
   (\<exists>k. computeFeedbackId (theWord ''apple'') (theWord ''angle'') = Inr k \<and>
        0 \<le>s k \<and> k \<le>s MAX_FEEDBACK_ID \<and>
        nat (sint k) < length (replicate (nat (sint (MAX_FEEDBACK_ID + 1))) (0 :: int32_t)) \<and>
        countFeedbackIds (WordleGame_new [] [theWord ''angle'']) (theWord ''apple'')
          [theWord ''angle''] (replicate (nat (sint (MAX_FEEDBACK_ID + 1))) 0) \<noteq> Inl OutOfRange)"
proof -
  have ws: "\<forall>w\<in>set [theWord ''angle'']. is_Word w"
    using is_Word_angle by simp
  from feedbackId_in_range [OF is_Word_apple is_Word_angle ws,
      of "WordleGame_new [] [theWord ''angle'']"]
  show ?thesis
    using is_Word_apple is_Word_angle by blast
qed

section \<open>Claims about the first guess and the feedback prompt\<close>

lemma Word_new_roate: "Word_new ''roate'' = Inr (theWord ''roate'')"
  by code_simp

lemma toString_roate: "toString (theWord ''roate'') = ''roate''"
  by code_simp

lemma is_Word_roate: "is_Word (theWord ''roate'')"
  by code_simp

text \<open>
  C8. When the feedback stack is empty, \<open>getGuess\<close> returns the Word "roate" and leaves
  the game as it is, whatever the guess words and the answer words are (no loop over
  them is run: the result does not depend on them, and holds for empty vocabularies too).
\<close>

theorem first_guess_is_roate:
  assumes "feedbacks game = []"
  shows "getGuess game = Inr (theWord ''roate'', game) \<and>
         toString (theWord ''roate'') = ''roate''"
  using assms by (simp add: getGuess_def Word_new_roate toString_roate)

theorem first_guess_is_roate_witness:
  "feedbacks (WordleGame_new [] []) = [] \<and>
   getGuess (WordleGame_new [] []) = Inr (theWord ''roate'', WordleGame_new [] []) \<and>
   feedbacks (WordleGame_new [theWord ''apple''] [theWord ''angle'']) = [] \<and>
   getGuess (WordleGame_new [theWord ''apple''] [theWord ''angle'']) =
     Inr (theWord ''roate'', WordleGame_new [theWord ''apple''] [theWord ''angle''])"
proof -
  have e1: "feedbacks (WordleGame_new [] []) = []"
    by (simp add: WordleGame_new_def)
  have e2: "feedbacks (WordleGame_new [theWord ''apple''] [theWord ''angle'']) = []"
    by (simp add: WordleGame_new_def)
  show ?thesis
    using first_guess_is_roate [OF e1] first_guess_is_roate [OF e2] e1 e2 by blast
qed

lemma GuessFeedback_loop_fails:
  "(\<exists>e. GuessFeedback_loop g f js gf = Inl e) \<longleftrightarrow>
     (\<exists>i\<in>set js. f ! i \<notin> {CHR ''r'', CHR ''y'', CHR ''g''})"
proof (induction js arbitrary: gf)
  case Nil
  then show ?case by simp
next
  case (Cons i js)
  show ?case
    by (simp add: Cons.IH Let_def)
qed

lemma GuessFeedback_of_strings_fails:
  "(\<exists>e. GuessFeedback_of_strings g f = Inl e) \<longleftrightarrow>
     (length g \<noteq> WORD_LENGTH \<or> length f \<noteq> WORD_LENGTH \<or>
      (\<exists>c\<in>set f. c \<notin> {CHR ''r'', CHR ''y'', CHR ''g''}))"
proof (cases "length g = WORD_LENGTH \<and> length f = WORD_LENGTH")
  case False
  then show ?thesis
    by (auto simp: GuessFeedback_of_strings_def)
next
  case True
  define bad where "bad = {c. c \<notin> {CHR ''r'', CHR ''y'', CHR ''g''}}"
  have "(\<exists>i\<in>set [0..<WORD_LENGTH]. f ! i \<in> bad) = (\<exists>c\<in>set f. c \<in> bad)"
  proof
    assume "\<exists>i\<in>set [0..<WORD_LENGTH]. f ! i \<in> bad"
    then obtain i where "i < length f" "f ! i \<in> bad"
      using True by auto
    then show "\<exists>c\<in>set f. c \<in> bad"
      using nth_mem by blast
  next
    assume "\<exists>c\<in>set f. c \<in> bad"
    then obtain c where "c \<in> set f" "c \<in> bad" ..
    then obtain i where "i < length f" "f ! i \<in> bad"
      by (auto simp: in_set_conv_nth)
    then show "\<exists>i\<in>set [0..<WORD_LENGTH]. f ! i \<in> bad"
      using True by auto
  qed
  then have "(\<exists>i\<in>set [0..<WORD_LENGTH]. f ! i \<notin> {CHR ''r'', CHR ''y'', CHR ''g''}) =
          (\<exists>c\<in>set f. c \<notin> {CHR ''r'', CHR ''y'', CHR ''g''})"
    by (simp only: bad_def mem_Collect_eq)
  moreover have "GuessFeedback_of_strings g f =
      GuessFeedback_loop g f [0..<WORD_LENGTH]
        \<lparr>guess = replicate WORD_LENGTH (CHR 0x00), feedback = replicate WORD_LENGTH 0\<rparr>"
    using True by (simp add: GuessFeedback_of_strings_def)
  ultimately show ?thesis
    using True by (simp only: GuessFeedback_loop_fails simp_thms)
qed

text \<open>
  C9. The constructor \<open>GuessFeedback(std::string, std::string)\<close> throws exactly when the
  guess text or the feedback text has a length other than 5 or some feedback character is
  not r, y or g. When it throws on the line read for the guess shown, the \<open>catch\<close> of
  \<open>main\<close> writes "Invalid feedback!", \<open>gotFeedback\<close> stays false, the game (and so its
  feedback stack) is the one before, and the loop prompts again: it goes on with the rest
  of the input from the same game.
\<close>

theorem invalid_feedback_is_rejected:
  "((\<exists>e. GuessFeedback_of_strings guessString feedbackString = Inl e) \<longleftrightarrow>
      (length guessString \<noteq> WORD_LENGTH \<or> length feedbackString \<noteq> WORD_LENGTH \<or>
       (\<exists>c\<in>set feedbackString. c \<notin> {CHR ''r'', CHR ''y'', CHR ''g''}))) \<and>
   (GuessFeedback_of_strings (toString guess_w) line = Inl e \<longrightarrow>
      tryPushFeedback game guess_w line = (game, False, [''Invalid feedback!'']) \<and>
      feedbacks (fst (tryPushFeedback game guess_w line)) = feedbacks game \<and>
      readFeedback game guess_w (line # rest) =
        (case readFeedback game guess_w rest of
           None \<Rightarrow> None
         | Some (game', rest', out) \<Rightarrow>
             Some (game', rest', ''feedback: '' # ''Invalid feedback!'' # out)))"
  by (simp add: GuessFeedback_of_strings_fails tryPushFeedback_def split: option.splits)

lemma bad_line: "GuessFeedback_of_strings (toString (theWord ''roate'')) ''rgx'' = Inl InvalidFeedbackLength"
  by code_simp

lemma bad_code: "GuessFeedback_of_strings (toString (theWord ''roate'')) ''rgxyy'' = Inl InvalidFeedbackCode"
  by code_simp

lemma good_line:
  "readFeedback (WordleGame_new [] []) (theWord ''roate'') [''rgyyr''] =
     Some (pushFeedback (WordleGame_new [] []) (theFeedback ''roate'' ''rgyyr''), [], [''feedback: ''])"
  by code_simp

theorem invalid_feedback_is_rejected_witness:
  "GuessFeedback_of_strings (toString (theWord ''roate'')) ''rgxyy'' = Inl InvalidFeedbackCode \<and>
   tryPushFeedback (WordleGame_new [] []) (theWord ''roate'') ''rgxyy'' =
     (WordleGame_new [] [], False, [''Invalid feedback!'']) \<and>
   readFeedback (WordleGame_new [] []) (theWord ''roate'') [''rgxyy'', ''rgyyr''] =
     Some (pushFeedback (WordleGame_new [] []) (theFeedback ''roate'' ''rgyyr''), [],
           [''feedback: '', ''Invalid feedback!'', ''feedback: ''])"
  using invalid_feedback_is_rejected [of "''roate''" "''rgxyy''" "theWord ''roate''" "''rgxyy''"
      InvalidFeedbackCode "WordleGame_new [] []" "[''rgyyr'']"]
    bad_code good_line
  by simp

section \<open>Facts about the loops of getGuess\<close>

lemma countPossibleSolutions_eq:
  assumes "\<forall>s\<in>set ws. \<exists>b. isPossibleAnswer game s = Inr b"
  shows "countPossibleSolutions game ws n =
           Inr (n + word_of_nat (length (filter (\<lambda>s. isPossibleAnswer game s = Inr True) ws)))"
  using assms
proof (induction ws arbitrary: n)
  case Nil
  then show ?case by simp
next
  case (Cons s ws)
  then obtain b where b: "isPossibleAnswer game s = Inr b" by auto
  show ?case
    using Cons.prems b by (cases b) (simp_all add: Cons.IH)
qed

lemma printPossibleSolutions_eq:
  assumes "\<forall>s\<in>set ws. \<exists>b. isPossibleAnswer game s = Inr b"
  shows "printPossibleSolutions game ws =
           Inr (filter (\<lambda>s. isPossibleAnswer game s = Inr True) ws)"
  using assms
proof (induction ws)
  case Nil
  then show ?case by simp
next
  case (Cons s ws)
  then obtain b where b: "isPossibleAnswer game s = Inr b" by auto
  show ?case
    using Cons b by (cases b) simp_all
qed

lemma firstPossibleSolution_eq:
  assumes "\<forall>s\<in>set ws. \<exists>b. isPossibleAnswer game s = Inr b"
  shows "firstPossibleSolution game ws =
           Inr (case filter (\<lambda>s. isPossibleAnswer game s = Inr True) ws of
                  [] \<Rightarrow> None | s # _ \<Rightarrow> Some s)"
  using assms
proof (induction ws)
  case Nil
  then show ?case by simp
next
  case (Cons s ws)
  then obtain b where b: "isPossibleAnswer game s = Inr b" by auto
  show ?case
    using Cons b by (cases b) simp_all
qed

lemma addRemaining_eq:
  assumes "\<forall>s\<in>set ws. \<exists>b. isPossibleAnswer game s = Inr b"
  shows "addRemaining game ws c acc =
           Inr (acc + c * word_of_nat (length (filter (\<lambda>s. isPossibleAnswer game s = Inr True) ws)))"
  using assms
proof (induction ws arbitrary: acc)
  case Nil
  then show ?case by simp
next
  case (Cons s ws)
  then obtain b where b: "isPossibleAnswer game s = Inr b" by auto
  show ?case
    using Cons.prems b by (cases b) (simp_all add: Cons.IH algebra_simps)
qed

lemma isPossibleAnswer_loop_append:
  "isPossibleAnswer_loop (fs @ [gf]) w =
     (case isPossibleAnswer_loop fs w of
        Inl e \<Rightarrow> Inl e
      | Inr b \<Rightarrow> if \<not> b then Inr False else isConsistentWith gf w)"
proof (induction fs)
  case Nil
  show ?case by (cases "isConsistentWith gf w") auto
next
  case (Cons f fs)
  then show ?case by (simp split: sum.splits)
qed

lemma isPossibleAnswer_push:
  "isPossibleAnswer (pushFeedback game gf) w =
     (case isPossibleAnswer game w of
        Inl e \<Rightarrow> Inl e
      | Inr b \<Rightarrow> if \<not> b then Inr False else isConsistentWith gf w)"
  by (simp add: isPossibleAnswer_def pushFeedback_def isPossibleAnswer_loop_append)

lemma pop_push: "popFeedback (pushFeedback game gf) = game"
  by (simp add: popFeedback_def pushFeedback_def)

lemma answerWords_push: "answerWords (pushFeedback game gf) = answerWords game"
  by (simp add: pushFeedback_def)

text \<open>One consistent Word rules out a throw for every other Word.\<close>

lemma isPossibleAnswer_loop_no_throw:
  assumes "is_Word w0" "isPossibleAnswer_loop fs w0 = Inr True" "is_Word w"
  shows "\<exists>b. isPossibleAnswer_loop fs w = Inr b"
  using assms(2)
proof (induction fs)
  case Nil
  then show ?case by auto
next
  case (Cons f fs)
  have c0: "isConsistentWith f w0 = Inr True" and r0: "isPossibleAnswer_loop fs w0 = Inr True"
    using Cons.prems by (auto split: sum.splits if_splits)
  obtain b where b: "isConsistentWith f w = Inr b"
    using isConsistentWith_no_throw [OF assms(1) c0 assms(3)] by blast
  show ?case
    using b Cons.IH [OF r0] by auto
qed

lemma isPossibleAnswer_no_throw:
  assumes "is_Word w0" "isPossibleAnswer game w0 = Inr True" "is_Word w"
  shows "\<exists>b. isPossibleAnswer game w = Inr b"
  using assms unfolding isPossibleAnswer_def by (rule isPossibleAnswer_loop_no_throw)

lemma sint_of_nat_32:
  assumes "n < 2 ^ 31"
  shows "sint (word_of_nat n :: int32_t) = int n"
proof -
  have "signed_take_bit 31 (int n) = int n"
  proof (rule signed_take_bit_int_eq_self)
    have "- (2 ^ 31) \<le> (0 :: int)" by simp
    also have "0 \<le> int n" by simp
    finally show "- (2 ^ 31) \<le> int n" .
    have "int n < int (2 ^ 31)" using assms by (simp only: of_nat_less_iff)
    then show "int n < 2 ^ 31" by simp
  qed
  then show ?thesis
    by (simp add: signed_of_nat)
qed

text \<open>The loop over the guess words, when every guess is scored and the game restored.\<close>

lemma scoreGuesses_eq:
  assumes "\<forall>g\<in>set gs. scoreGuess game g = Inr (game, sc g)"
  shows "scoreGuesses game gs least best =
           Inr (game, bestOf (\<lambda>g. sint (sc g)) gs (sint least) best)"
  using assms
proof (induction gs arbitrary: least best)
  case Nil
  then show ?case by simp
next
  case (Cons g gs)
  then show ?case
    by (simp add: word_sless_alt)
qed

lemma bestOf_cong:
  assumes "\<forall>x\<in>set xs. f x = g x"
  shows "bestOf f xs least best = bestOf g xs least best"
  using assms by (induction xs arbitrary: least best) simp_all

lemma bestOf_invariant:
  assumes "\<forall>x\<in>set xs. 0 \<le> f x" "0 \<le> least"
  shows "(bestOf f xs least best = best \<and> (\<forall>x\<in>set xs. least \<le> f x)) \<or>
         (\<exists>i<length xs. bestOf f xs least best = xs ! i \<and> f (xs ! i) < least \<and>
            (\<forall>j<length xs. f (xs ! i) \<le> f (xs ! j)) \<and> (\<forall>j<i. f (xs ! i) < f (xs ! j)))"
  using assms
proof (induction xs arbitrary: least best)
  case Nil
  then show ?case by simp
next
  case (Cons x xs)
  have fx: "0 \<le> f x" and rest: "\<forall>y\<in>set xs. 0 \<le> f y"
    using Cons.prems(1) by simp_all
  show ?case
  proof (cases "f x < least")
    case True
    have step: "bestOf f (x # xs) least best = bestOf f xs (f x) x"
      using True by simp
    from Cons.IH [OF rest fx, of x]
    show ?thesis
    proof
      assume a: "bestOf f xs (f x) x = x \<and> (\<forall>y\<in>set xs. f x \<le> f y)"
      have "0 < length (x # xs) \<and> bestOf f (x # xs) least best = (x # xs) ! 0 \<and>
            f ((x # xs) ! 0) < least \<and>
            (\<forall>j<length (x # xs). f ((x # xs) ! 0) \<le> f ((x # xs) ! j)) \<and>
            (\<forall>j<0. f ((x # xs) ! 0) < f ((x # xs) ! j))"
        using a True step by (auto simp: nth_Cons split: nat.splits)
      then show ?thesis by blast
    next
      assume "\<exists>i<length xs. bestOf f xs (f x) x = xs ! i \<and> f (xs ! i) < f x \<and>
            (\<forall>j<length xs. f (xs ! i) \<le> f (xs ! j)) \<and> (\<forall>j<i. f (xs ! i) < f (xs ! j))"
      then obtain i where i: "i < length xs" "bestOf f xs (f x) x = xs ! i" "f (xs ! i) < f x"
        "\<forall>j<length xs. f (xs ! i) \<le> f (xs ! j)" "\<forall>j<i. f (xs ! i) < f (xs ! j)"
        by blast
      have "Suc i < length (x # xs) \<and> bestOf f (x # xs) least best = (x # xs) ! Suc i \<and>
            f ((x # xs) ! Suc i) < least \<and>
            (\<forall>j<length (x # xs). f ((x # xs) ! Suc i) \<le> f ((x # xs) ! j)) \<and>
            (\<forall>j<Suc i. f ((x # xs) ! Suc i) < f ((x # xs) ! j))"
        using i True step by (auto simp: nth_Cons split: nat.splits)
      then show ?thesis by blast
    qed
  next
    case False
    have step: "bestOf f (x # xs) least best = bestOf f xs least best"
      using False Cons.prems(2) by simp
    from Cons.IH [OF rest Cons.prems(2), of best]
    show ?thesis
    proof
      assume "bestOf f xs least best = best \<and> (\<forall>y\<in>set xs. least \<le> f y)"
      then show ?thesis
        using False step by auto
    next
      assume "\<exists>i<length xs. bestOf f xs least best = xs ! i \<and> f (xs ! i) < least \<and>
            (\<forall>j<length xs. f (xs ! i) \<le> f (xs ! j)) \<and> (\<forall>j<i. f (xs ! i) < f (xs ! j))"
      then obtain i where i: "i < length xs" "bestOf f xs least best = xs ! i"
        "f (xs ! i) < least"
        "\<forall>j<length xs. f (xs ! i) \<le> f (xs ! j)" "\<forall>j<i. f (xs ! i) < f (xs ! j)"
        by blast
      have "Suc i < length (x # xs) \<and> bestOf f (x # xs) least best = (x # xs) ! Suc i \<and>
            f ((x # xs) ! Suc i) < least \<and>
            (\<forall>j<length (x # xs). f ((x # xs) ! Suc i) \<le> f ((x # xs) ! j)) \<and>
            (\<forall>j<Suc i. f ((x # xs) ! Suc i) < f ((x # xs) ! j))"
        using i False step by (auto simp: nth_Cons split: nat.splits)
      then show ?thesis by blast
    qed
  qed
qed

lemma bestOf_first_minimum:
  assumes "\<forall>x\<in>set xs. 0 \<le> f x" "xs \<noteq> []" "least < 0"
  shows "\<exists>i<length xs. bestOf f xs least best = xs ! i \<and>
            (\<forall>j<length xs. f (xs ! i) \<le> f (xs ! j)) \<and> (\<forall>j<i. f (xs ! i) < f (xs ! j))"
proof -
  obtain x ys where xs: "xs = x # ys"
    using assms(2) by (cases xs) auto
  have fx: "0 \<le> f x" and rest: "\<forall>y\<in>set ys. 0 \<le> f y"
    using assms(1) xs by simp_all
  have step: "bestOf f xs least best = bestOf f ys (f x) x"
    using assms(3) xs by simp
  from bestOf_invariant [OF rest fx, of x]
  show ?thesis
  proof
    assume a: "bestOf f ys (f x) x = x \<and> (\<forall>y\<in>set ys. f x \<le> f y)"
    have "0 < length xs \<and> bestOf f xs least best = xs ! 0 \<and>
          (\<forall>j<length xs. f (xs ! 0) \<le> f (xs ! j)) \<and> (\<forall>j<0. f (xs ! 0) < f (xs ! j))"
      using a step xs by (auto simp: nth_Cons split: nat.splits)
    then show ?thesis by blast
  next
    assume "\<exists>i<length ys. bestOf f ys (f x) x = ys ! i \<and> f (ys ! i) < f x \<and>
          (\<forall>j<length ys. f (ys ! i) \<le> f (ys ! j)) \<and> (\<forall>j<i. f (ys ! i) < f (ys ! j))"
    then obtain i where i: "i < length ys" "bestOf f ys (f x) x = ys ! i" "f (ys ! i) < f x"
      "\<forall>j<length ys. f (ys ! i) \<le> f (ys ! j)" "\<forall>j<i. f (ys ! i) < f (ys ! j)"
      by blast
    have "Suc i < length xs \<and> bestOf f xs least best = xs ! Suc i \<and>
          (\<forall>j<length xs. f (xs ! Suc i) \<le> f (xs ! j)) \<and>
          (\<forall>j<Suc i. f (xs ! Suc i) < f (xs ! j))"
      using i step xs by (auto simp: nth_Cons split: nat.splits)
    then show ?thesis by blast
  qed
qed

lemma key_index:
  fixes k :: int32_t
  assumes "k \<le> 682" "j < 683"
  shows "(k = word_of_nat j) = (nat (sint k) = j)"
proof -
  have u: "unat (word_of_nat j :: int32_t) = j"
    using assms(2) by (simp add: unat_of_nat)
  have "nat (sint k) = unat k"
    using sint_le_682(3) [OF assms(1)] by simp
  then show ?thesis
    using u by (simp add: word_unat_eq_iff)
qed

lemma bucketSize_alt:
  "bucketSize game g k =
     length (filter (\<lambda>s. isPossibleAnswer game s = Inr True \<and> computeFeedbackId g s = Inr k)
       (answerWords game))"
  by (simp add: bucketSize_def candidateSolutions_def)

lemma countFeedbackIds_eq:
  assumes "is_Word g"
    and "\<forall>s\<in>set ws. is_Word s \<and> (\<exists>b. isPossibleAnswer game s = Inr b)"
    and "length counts = 683"
  shows "\<exists>counts'. countFeedbackIds game g ws counts = Inr counts' \<and> length counts' = 683 \<and>
           (\<forall>j<683. counts' ! j = counts ! j + word_of_nat (length (filter
              (\<lambda>s. isPossibleAnswer game s = Inr True \<and>
                   computeFeedbackId g s = Inr (word_of_nat j)) ws)))"
  using assms(2,3)
proof (induction ws arbitrary: counts)
  case Nil
  then show ?case by simp
next
  case (Cons s ws)
  have s: "is_Word s" using Cons.prems(1) by simp
  obtain b where b: "isPossibleAnswer game s = Inr b"
    using Cons.prems(1) by auto
  have rest: "\<forall>s\<in>set ws. is_Word s \<and> (\<exists>b. isPossibleAnswer game s = Inr b)"
    using Cons.prems(1) by simp
  show ?case
  proof (cases b)
    case False
    then show ?thesis
      using b Cons.IH [OF rest Cons.prems(2)] by simp
  next
    case True
    obtain k where k: "computeFeedbackId g s = Inr k"
      by (simp add: computeFeedbackId_eq [OF assms(1) s])
    have le: "k \<le> 682"
      by (rule computeFeedbackId_bounds [OF assms(1) s k])
    have r: "\<not> (sint k < 0 \<or> length counts \<le> nat (sint k))"
      using sint_le_682 [OF le] Cons.prems(2) by simp
    let ?c = "counts[nat (sint k) := counts ! nat (sint k) + 1]"
    have step: "countFeedbackIds game g (s # ws) counts = countFeedbackIds game g ws ?c"
      using b True k r by simp
    have len: "length ?c = 683"
      using Cons.prems(2) by simp
    obtain counts' where c': "countFeedbackIds game g ws ?c = Inr counts'"
      "length counts' = 683"
      "\<forall>j<683. counts' ! j = ?c ! j + word_of_nat (length (filter
              (\<lambda>s. isPossibleAnswer game s = Inr True \<and>
                   computeFeedbackId g s = Inr (word_of_nat j)) ws))"
      using Cons.IH [OF rest len] by blast
    have "counts' ! j = counts ! j + word_of_nat (length (filter
              (\<lambda>s. isPossibleAnswer game s = Inr True \<and>
                   computeFeedbackId g s = Inr (word_of_nat j)) (s # ws)))" if j: "j < 683" for j
    proof (cases "k = word_of_nat j")
      case True
      then have "nat (sint k) = j"
        using key_index [OF le j] by simp
      then have "?c ! j = counts ! j + 1"
        using j Cons.prems(2) by simp
      then show ?thesis
        using c'(3) j b \<open>b\<close> k True by simp
    next
      case False
      then have "nat (sint k) \<noteq> j"
        using key_index [OF le j] by simp
      then have "?c ! j = counts ! j"
        by simp
      then show ?thesis
        using c'(3) j b k False by simp
    qed
    then show ?thesis
      using step c'(1,2) by simp
  qed
qed

lemma scoreFeedbackIds_eq:
  assumes "is_Word g"
    and "\<forall>s\<in>set (answerWords game). is_Word s \<and> (\<exists>b. isPossibleAnswer game s = Inr b)"
    and "length counts = 683"
    and "\<forall>j<683. counts ! j = word_of_nat (bucketSize game g (word_of_nat j))"
    and "\<forall>j\<in>set js. j < 683"
  shows "scoreFeedbackIds game g counts js acc =
           Inr (game, acc + word_of_nat (\<Sum>j\<leftarrow>js. (bucketSize game g (word_of_nat j))\<^sup>2))"
  using assms(5)
proof (induction js arbitrary: acc)
  case Nil
  then show ?case by simp
next
  case (Cons j js)
  have j: "j < 683" using Cons.prems by simp
  have rest: "\<forall>j\<in>set js. j < 683" using Cons.prems by simp
  have cj: "counts ! j = word_of_nat (bucketSize game g (word_of_nat j))"
    using assms(4) j by simp
  have inr: "\<not> length counts \<le> j"
    using assms(3) j by simp
  show ?case
  proof (cases "counts ! j = 0")
    case True
    have "word_of_nat ((bucketSize game g (word_of_nat j))\<^sup>2) = (0 :: int32_t)"
      using True cj by (simp add: power2_eq_square)
    then show ?thesis
      using True inr Cons.IH [OF rest, of acc] by (simp add: add.assoc)
  next
    case False
    let ?k = "word_of_nat j :: int32_t"
    let ?gf = "GuessFeedback_of_id g ?k"
    let ?pushed = "pushFeedback game ?gf"
    have "bucketSize game g ?k \<noteq> 0"
    proof
      assume "bucketSize game g ?k = 0"
      then have "counts ! j = 0" using cj by simp
      then show False using False by simp
    qed
    then have "filter (\<lambda>s. isPossibleAnswer game s = Inr True \<and> computeFeedbackId g s = Inr ?k)
       (answerWords game) \<noteq> []"
      by (simp add: bucketSize_alt)
    then obtain s' where s': "s' \<in> set (answerWords game)" "computeFeedbackId g s' = Inr ?k"
      by (auto simp: filter_empty_conv)
    have ws': "is_Word s'" using assms(2) s'(1) by simp
    have poss: "isPossibleAnswer ?pushed s =
        Inr (isPossibleAnswer game s = Inr True \<and> computeFeedbackId g s = Inr ?k)"
      if mem: "s \<in> set (answerWords game)" for s
    proof -
      have ws: "is_Word s" using assms(2) mem by simp
      obtain b where b: "isPossibleAnswer game s = Inr b"
        using assms(2) mem by auto
      show ?thesis
        using b isConsistentWith_computed [OF assms(1) ws ws' s'(2)]
        by (simp add: isPossibleAnswer_push)
    qed
    have nothrow: "\<forall>s\<in>set (answerWords game). \<exists>b. isPossibleAnswer ?pushed s = Inr b"
      using poss by blast
    have "filter (\<lambda>s. isPossibleAnswer ?pushed s = Inr True) (answerWords game) =
          filter (\<lambda>s. isPossibleAnswer game s = Inr True \<and> computeFeedbackId g s = Inr ?k)
            (answerWords game)"
      by (rule filter_cong) (simp_all add: poss)
    then have "length (filter (\<lambda>s. isPossibleAnswer ?pushed s = Inr True) (answerWords game)) =
          bucketSize game g ?k"
      by (simp add: bucketSize_alt)
    then have add: "addRemaining ?pushed (answerWords game) (counts ! j) acc =
          Inr (acc + word_of_nat ((bucketSize game g ?k)\<^sup>2))"
      using addRemaining_eq [OF nothrow, of "counts ! j" acc] cj
      by (simp add: power2_eq_square)
    have "scoreFeedbackIds game g counts (j # js) acc =
          scoreFeedbackIds game g counts js (acc + word_of_nat ((bucketSize game g ?k)\<^sup>2))"
      using False inr add by (simp add: Let_def answerWords_push pop_push)
    then show ?thesis
      using Cons.IH [OF rest] by (simp add: add.assoc)
  qed
qed

lemma scoreGuess_eq:
  assumes "is_Word g"
    and "\<forall>s\<in>set (answerWords game). is_Word s \<and> (\<exists>b. isPossibleAnswer game s = Inr b)"
  shows "scoreGuess game g = Inr (game, word_of_nat (sumOfSquares game g))"
proof -
  obtain counts where c: "countFeedbackIds game g (answerWords game) (replicate 683 0) = Inr counts"
    "length counts = 683"
    "\<forall>j<683. counts ! j = (replicate 683 0) ! j + word_of_nat (length (filter
              (\<lambda>s. isPossibleAnswer game s = Inr True \<and>
                   computeFeedbackId g s = Inr (word_of_nat j)) (answerWords game)))"
    using countFeedbackIds_eq [OF assms, of "replicate 683 0"] by auto
  have cj: "\<forall>j<683. counts ! j = word_of_nat (bucketSize game g (word_of_nat j))"
    using c(3) by (simp add: bucketSize_alt)
  have "scoreFeedbackIds game g counts [0..<683] 0 =
          Inr (game, 0 + word_of_nat (\<Sum>j\<leftarrow>[0..<683]. (bucketSize game g (word_of_nat j))\<^sup>2))"
    by (rule scoreFeedbackIds_eq [OF assms c(2) cj]) simp
  then show ?thesis
    using c(1) by (simp add: scoreGuess_def sumOfSquares_def counts_size keys_upt)
qed

lemma length_filter_disjoint:
  assumes "\<forall>x\<in>set xs. \<not> (P x \<and> Q x)"
  shows "length (filter P xs) + length (filter Q xs) = length (filter (\<lambda>x. P x \<or> Q x) xs)"
  using assms by (induction xs) auto

lemma sum_buckets:
  assumes "distinct js" "inj_on h (set js)"
  shows "(\<Sum>j\<leftarrow>js. length (filter (\<lambda>s. key s = h j) xs)) =
           length (filter (\<lambda>s. key s \<in> h ` set js) xs)"
  using assms
proof (induction js)
  case Nil
  then show ?case by simp
next
  case (Cons j js)
  have notin: "h j \<notin> h ` set js"
    using Cons.prems by auto
  have "length (filter (\<lambda>s. key s = h j) xs) + length (filter (\<lambda>s. key s \<in> h ` set js) xs) =
          length (filter (\<lambda>s. key s = h j \<or> key s \<in> h ` set js) xs)"
    using notin by (intro length_filter_disjoint) auto
  moreover have "(\<Sum>j\<leftarrow>js. length (filter (\<lambda>s. key s = h j) xs)) =
          length (filter (\<lambda>s. key s \<in> h ` set js) xs)"
    using Cons.prems by (intro Cons.IH) auto
  ultimately show ?case
    by simp
qed

lemma inj_on_key: "inj_on (\<lambda>j. (Inr (word_of_nat j) :: error + int32_t)) (set [0..<683])"
proof (rule inj_onI)
  fix i j :: nat
  assume i: "i \<in> set [0..<683]" and j: "j \<in> set [0..<683]"
    and eq: "(Inr (word_of_nat i) :: error + int32_t) = Inr (word_of_nat j)"
  have "unat (word_of_nat i :: int32_t) = i" "unat (word_of_nat j :: int32_t) = j"
    using i j by (simp_all add: unat_of_nat)
  then show "i = j"
    using eq by (metis sum.inject(2))
qed

text \<open>The start of \<open>getGuess\<close> after the first guess, when no check throws.\<close>

lemma getGuess_count:
  assumes "feedbacks game \<noteq> []" "guessWords game \<noteq> []"
    and "\<forall>s\<in>set (answerWords game). \<exists>b. isPossibleAnswer game s = Inr b"
    and "length (candidateSolutions game) < 2 ^ 31"
  shows "getGuess game =
           (if length (candidateSolutions game) \<le> 2 \<and> candidateSolutions game \<noteq> []
            then Inr (hd (candidateSolutions game), game)
            else (case scoreGuesses game (guessWords game) (- 1) (hd (guessWords game)) of
                    Inl e \<Rightarrow> Inl e
                  | Inr (game', best) \<Rightarrow> Inr (best, game')))"
proof -
  let ?n = "length (candidateSolutions game)"
  obtain g gs where gw: "guessWords game = g # gs"
    using assms(2) by (cases "guessWords game") auto
  have count: "countPossibleSolutions game (answerWords game) 0 = Inr (word_of_nat ?n)"
    using countPossibleSolutions_eq [OF assms(3), of 0] by (simp add: candidateSolutions_def)
  have s: "sint (word_of_nat ?n :: int32_t) = int ?n"
    by (rule sint_of_nat_32 [OF assms(4)])
  have le2: "(word_of_nat ?n :: int32_t) \<le>s 2 \<longleftrightarrow> ?n \<le> 2"
    using s by (simp add: word_sle_eq)
  have print: "\<exists>out. printPossibleSolutions game (answerWords game) = Inr out"
    using printPossibleSolutions_eq [OF assms(3)] by simp
  have first: "firstPossibleSolution game (answerWords game) =
      Inr (case candidateSolutions game of [] \<Rightarrow> None | s # _ \<Rightarrow> Some s)"
    using firstPossibleSolution_eq [OF assms(3)] by (simp add: candidateSolutions_def)
  show ?thesis
  proof (cases "candidateSolutions game")
    case Nil
    then show ?thesis
      using assms(1) gw count print first le2
      by (auto simp: getGuess_def split: sum.splits)
  next
    case (Cons c cs)
    then show ?thesis
      using assms(1) gw count print first le2
      by (auto simp: getGuess_def split: sum.splits)
  qed
qed

lemma getGuess_full_search:
  assumes "feedbacks game \<noteq> []" "guessWords game \<noteq> []"
    and "\<forall>g\<in>set (guessWords game). is_Word g"
    and "\<forall>s\<in>set (answerWords game). is_Word s \<and> (\<exists>b. isPossibleAnswer game s = Inr b)"
    and "candidateSolutions game = [] \<or> 3 \<le> length (candidateSolutions game)"
    and "length (candidateSolutions game) < 2 ^ 31"
    and "\<forall>g\<in>set (guessWords game). sumOfSquares game g < 2 ^ 31"
  shows "\<forall>g\<in>set (guessWords game). guessScore game g = Some (int (sumOfSquares game g))"
    and "getGuess game =
           Inr (bestOf (\<lambda>g. int (sumOfSquares game g)) (guessWords game) (- 1)
                  (hd (guessWords game)), game)"
proof -
  have score: "scoreGuess game g = Inr (game, word_of_nat (sumOfSquares game g))"
    if "g \<in> set (guessWords game)" for g
    using that assms(3) by (intro scoreGuess_eq [OF _ assms(4)]) simp
  have sint: "sint (word_of_nat (sumOfSquares game g) :: int32_t) = int (sumOfSquares game g)"
    if "g \<in> set (guessWords game)" for g
    using that assms(7) by (intro sint_of_nat_32) simp
  show "\<forall>g\<in>set (guessWords game). guessScore game g = Some (int (sumOfSquares game g))"
    using score sint by (simp add: guessScore_def)
  have nothrow: "\<forall>s\<in>set (answerWords game). \<exists>b. isPossibleAnswer game s = Inr b"
    using assms(4) by simp
  have "scoreGuesses game (guessWords game) (- 1) (hd (guessWords game)) =
          Inr (game, bestOf (\<lambda>g. sint (word_of_nat (sumOfSquares game g) :: int32_t))
                 (guessWords game) (sint (- 1 :: int32_t)) (hd (guessWords game)))"
    by (rule scoreGuesses_eq) (simp add: score)
  moreover have "bestOf (\<lambda>g. sint (word_of_nat (sumOfSquares game g) :: int32_t))
                   (guessWords game) l b =
                 bestOf (\<lambda>g. int (sumOfSquares game g)) (guessWords game) l b" for l b
    by (rule bestOf_cong) (simp add: sint)
  ultimately have "scoreGuesses game (guessWords game) (- 1) (hd (guessWords game)) =
          Inr (game, bestOf (\<lambda>g. int (sumOfSquares game g)) (guessWords game) (- 1)
                 (hd (guessWords game)))"
    by simp
  then show "getGuess game =
           Inr (bestOf (\<lambda>g. int (sumOfSquares game g)) (guessWords game) (- 1)
                  (hd (guessWords game)), game)"
    using assms(5) by (auto simp: getGuess_count [OF assms(1,2) nothrow assms(6)])
qed

text \<open>The score summed over the keys that occur among the candidates.\<close>

lemma sumOfSquares_keys:
  assumes "is_Word g" "\<forall>s\<in>set (candidateSolutions game). is_Word s"
  shows "sumOfSquares game g =
           (\<Sum>k\<leftarrow>remdups (map (computeFeedbackId g) (candidateSolutions game)).
              (length (filter (\<lambda>s. computeFeedbackId g s = k) (candidateSolutions game)))\<^sup>2)"
proof -
  let ?c = "candidateSolutions game"
  let ?h = "\<lambda>j. (Inr (word_of_nat j) :: error + int32_t)"
  let ?f = "\<lambda>k. (length (filter (\<lambda>s. computeFeedbackId g s = k) ?c))\<^sup>2"
  let ?K = "set (map (computeFeedbackId g) ?c)"
  have sub: "?K \<subseteq> ?h ` set [0..<683]"
  proof
    fix key assume "key \<in> ?K"
    then obtain s where s: "s \<in> set ?c" "key = computeFeedbackId g s"
      by auto
    have ws: "is_Word s" using assms(2) s(1) by simp
    obtain k where k: "computeFeedbackId g s = Inr k"
      by (simp add: computeFeedbackId_eq [OF assms(1) ws])
    have le: "k \<le> 682"
      by (rule computeFeedbackId_bounds [OF assms(1) ws k])
    have "k = word_of_nat (unat k)" by simp
    moreover have "unat k < 683"
      by (rule sint_le_682(4) [OF le])
    ultimately have "Inr k \<in> ?h ` set [0..<683]"
      by (metis (mono_tags, lifting) atLeast0LessThan image_eqI lessThan_iff set_upt)
    then show "key \<in> ?h ` set [0..<683]"
      using s(2) k by simp
  qed
  have zero: "?f key = 0" if "key \<in> ?h ` set [0..<683] - ?K" for key
  proof -
    have "key \<notin> ?K" using that by simp
    then have "\<forall>s\<in>set ?c. computeFeedbackId g s \<noteq> key"
      by (metis image_eqI set_map)
    then have "filter (\<lambda>s. computeFeedbackId g s = key) ?c = []"
      by (simp add: filter_empty_conv)
    then show ?thesis by simp
  qed
  have "sumOfSquares game g = (\<Sum>j\<leftarrow>[0..<683]. ?f (?h j))"
    by (simp add: sumOfSquares_def keys_upt bucketSize_def)
  also have "\<dots> = sum (\<lambda>j. ?f (?h j)) (set [0..<683])"
    by (rule sum_list_distinct_conv_sum_set) simp
  also have "\<dots> = sum ?f (?h ` set [0..<683])"
    by (rule sum.reindex [OF inj_on_key, symmetric, unfolded comp_def])
  also have "\<dots> = sum ?f ?K"
    by (rule sum.mono_neutral_right) (use sub zero in auto)
  also have "\<dots> = sum ?f (set (remdups (map (computeFeedbackId g) ?c)))"
    by simp
  also have "\<dots> = (\<Sum>k\<leftarrow>remdups (map (computeFeedbackId g) ?c). ?f k)"
    by (rule sum_list_distinct_conv_sum_set [symmetric]) simp
  finally show ?thesis .
qed

section \<open>Facts about the example games\<close>

lemma is_Word_ample: "is_Word (theWord ''ample'')"
  by code_simp

lemma is_Word_maple: "is_Word (theWord ''maple'')"
  by code_simp

lemma guessWords_gameFour:
  "guessWords gameFour = [theWord ''roate'', theWord ''apple'', theWord ''angle'',
     theWord ''ample'', theWord ''maple'']"
  by (simp add: gameFour_def pushFeedback_def WordleGame_new_def)

lemma answerWords_gameFour:
  "answerWords gameFour = [theWord ''apple'', theWord ''angle'', theWord ''ample'',
     theWord ''maple'']"
  by (simp add: gameFour_def pushFeedback_def WordleGame_new_def)

lemma feedbacks_gameFour: "feedbacks gameFour \<noteq> []"
  by (simp add: gameFour_def pushFeedback_def)

lemma candidates_gameFour:
  "candidateSolutions gameFour = [theWord ''apple'', theWord ''angle'', theWord ''ample'',
     theWord ''maple'']"
  by code_simp

lemma guessWords_gameTwo:
  "guessWords gameTwo = [theWord ''apple'', theWord ''angle'', theWord ''ample'']"
  by (simp add: gameTwo_def pushFeedback_def WordleGame_new_def)

lemma answerWords_gameTwo: "answerWords gameTwo = [theWord ''angle'', theWord ''ample'']"
  by (simp add: gameTwo_def pushFeedback_def WordleGame_new_def)

lemma feedbacks_gameTwo: "feedbacks gameTwo \<noteq> []"
  by (simp add: gameTwo_def pushFeedback_def)

lemma candidates_gameTwo:
  "candidateSolutions gameTwo = [theWord ''angle'', theWord ''ample'']"
  by code_simp

lemma guessWords_gameNone:
  "guessWords gameNone = [theWord ''maple'', theWord ''apple'', theWord ''angle'']"
  by (simp add: gameNone_def pushFeedback_def WordleGame_new_def)

lemma answerWords_gameNone: "answerWords gameNone = [theWord ''apple'', theWord ''angle'']"
  by (simp add: gameNone_def pushFeedback_def WordleGame_new_def)

lemma feedbacks_gameNone: "feedbacks gameNone \<noteq> []"
  by (simp add: gameNone_def pushFeedback_def)

lemma impossible_gameNone:
  "isPossibleAnswer gameNone (theWord ''apple'') = Inr False"
  "isPossibleAnswer gameNone (theWord ''angle'') = Inr False"
  by code_simp+

lemma scores_gameFour:
  "sumOfSquares gameFour (theWord ''roate'') = 16"
  "sumOfSquares gameFour (theWord ''apple'') = 4"
  "sumOfSquares gameFour (theWord ''angle'') = 6"
  "sumOfSquares gameFour (theWord ''ample'') = 4"
  "sumOfSquares gameFour (theWord ''maple'') = 4"
proof -
  have c: "\<forall>s\<in>set (candidateSolutions gameFour). is_Word s"
    using is_Word_apple is_Word_angle is_Word_ample is_Word_maple
    by (simp add: candidates_gameFour)
  show "sumOfSquares gameFour (theWord ''roate'') = 16"
    unfolding sumOfSquares_keys [OF is_Word_roate c] candidates_gameFour by code_simp
  show "sumOfSquares gameFour (theWord ''apple'') = 4"
    unfolding sumOfSquares_keys [OF is_Word_apple c] candidates_gameFour by code_simp
  show "sumOfSquares gameFour (theWord ''angle'') = 6"
    unfolding sumOfSquares_keys [OF is_Word_angle c] candidates_gameFour by code_simp
  show "sumOfSquares gameFour (theWord ''ample'') = 4"
    unfolding sumOfSquares_keys [OF is_Word_ample c] candidates_gameFour by code_simp
  show "sumOfSquares gameFour (theWord ''maple'') = 4"
    unfolding sumOfSquares_keys [OF is_Word_maple c] candidates_gameFour by code_simp
qed

lemma scores_gameTwo:
  "sumOfSquares gameTwo (theWord ''apple'') = 2"
  "sumOfSquares gameTwo (theWord ''angle'') = 2"
  "sumOfSquares gameTwo (theWord ''ample'') = 2"
proof -
  have c: "\<forall>s\<in>set (candidateSolutions gameTwo). is_Word s"
    using is_Word_angle is_Word_ample by (simp add: candidates_gameTwo)
  show "sumOfSquares gameTwo (theWord ''apple'') = 2"
    unfolding sumOfSquares_keys [OF is_Word_apple c] candidates_gameTwo by code_simp
  show "sumOfSquares gameTwo (theWord ''angle'') = 2"
    unfolding sumOfSquares_keys [OF is_Word_angle c] candidates_gameTwo by code_simp
  show "sumOfSquares gameTwo (theWord ''ample'') = 2"
    unfolding sumOfSquares_keys [OF is_Word_ample c] candidates_gameTwo by code_simp
qed

lemma words_differ:
  "theWord ''apple'' \<noteq> theWord ''angle''"
  "theWord ''maple'' \<noteq> theWord ''apple''"
  "theWord ''ample'' \<noteq> theWord ''apple''"
  "theWord ''ample'' \<noteq> theWord ''angle''"
  "theWord ''maple'' \<noteq> theWord ''angle''"
  by code_simp+

section \<open>Claims about getGuess\<close>

lemma guessScore_eq:
  assumes "is_Word g"
    and "\<forall>s\<in>set (answerWords game). is_Word s \<and> (\<exists>b. isPossibleAnswer game s = Inr b)"
    and "sumOfSquares game g < 2 ^ 31"
  shows "guessScore game g = Some (int (sumOfSquares game g))"
proof -
  have "sint (word_of_nat (sumOfSquares game g) :: int32_t) = int (sumOfSquares game g)"
    by (rule sint_of_nat_32 [OF assms(3)])
  then show ?thesis
    by (simp add: guessScore_def scoreGuess_eq [OF assms(1,2)])
qed

text \<open>The candidates are spread over the keys that occur, so their number is at most the score.\<close>

lemma length_as_buckets:
  "length xs = (\<Sum>k\<leftarrow>remdups (map f xs). length (filter (\<lambda>s. f s = k) xs))"
proof -
  have "(\<Sum>k\<leftarrow>remdups (map f xs). length (filter (\<lambda>s. f s = (\<lambda>k. k) k) xs)) =
          length (filter (\<lambda>s. f s \<in> (\<lambda>k. k) ` set (remdups (map f xs))) xs)"
    by (rule sum_buckets) simp_all
  then show ?thesis
    by simp
qed

lemma candidates_le_sumOfSquares:
  assumes "is_Word g" "\<forall>s\<in>set (candidateSolutions game). is_Word s"
  shows "length (candidateSolutions game) \<le> sumOfSquares game g"
proof -
  let ?c = "candidateSolutions game"
  let ?n = "\<lambda>k. length (filter (\<lambda>s. computeFeedbackId g s = k) ?c)"
  have "length ?c = (\<Sum>k\<leftarrow>remdups (map (computeFeedbackId g) ?c). ?n k)"
    by (rule length_as_buckets)
  also have "\<dots> \<le> (\<Sum>k\<leftarrow>remdups (map (computeFeedbackId g) ?c). (?n k)\<^sup>2)"
    by (rule sum_list_mono) (simp add: power2_nat_le_imp_le)
  also have "\<dots> = sumOfSquares game g"
    by (rule sumOfSquares_keys [OF assms, symmetric])
  finally show ?thesis .
qed

lemma candidates_fit:
  assumes "guessWords game \<noteq> []" "\<forall>g\<in>set (guessWords game). is_Word g"
    and "\<forall>s\<in>set (answerWords game). is_Word s"
    and "\<forall>g\<in>set (guessWords game). sumOfSquares game g < 2 ^ 31"
  shows "length (candidateSolutions game) < 2 ^ 31"
proof -
  obtain g where g: "g \<in> set (guessWords game)"
    using assms(1) by (cases "guessWords game") auto
  have c: "\<forall>s\<in>set (candidateSolutions game). is_Word s"
    using assms(3) by (simp add: candidateSolutions_def)
  have "length (candidateSolutions game) \<le> sumOfSquares game g"
    using g assms(2) c by (intro candidates_le_sumOfSquares) simp_all
  then show ?thesis
    using assms(4) g by (meson le_less_trans)
qed

text \<open>With one candidate among Words, no check throws on a Word.\<close>

lemma candidates_no_throw:
  assumes "\<forall>s\<in>set (answerWords game). is_Word s" "candidateSolutions game \<noteq> []"
  shows "\<forall>s\<in>set (answerWords game). is_Word s \<and> (\<exists>b. isPossibleAnswer game s = Inr b)"
proof -
  obtain s0 where "s0 \<in> set (candidateSolutions game)"
    using assms(2) by (cases "candidateSolutions game") auto
  then have s0: "s0 \<in> set (answerWords game)" "isPossibleAnswer game s0 = Inr True"
    by (simp_all add: candidateSolutions_def)
  have w0: "is_Word s0" using assms(1) s0(1) by simp
  show ?thesis
    using assms(1) isPossibleAnswer_no_throw [OF w0 s0(2)] by blast
qed

lemma bucket_key_in_range:
  assumes "is_Word g" "\<forall>s\<in>set (answerWords game). is_Word s" "bucketSize game g k \<noteq> 0"
  shows "k \<in> set (map word_of_nat [0..<Suc (nat (sint MAX_FEEDBACK_ID))])"
proof -
  have "filter (\<lambda>s. isPossibleAnswer game s = Inr True \<and> computeFeedbackId g s = Inr k)
          (answerWords game) \<noteq> []"
    using assms(3) by (simp add: bucketSize_alt)
  then obtain s where s: "s \<in> set (answerWords game)" "computeFeedbackId g s = Inr k"
    by (auto simp: filter_empty_conv)
  have ws: "is_Word s" using assms(2) s(1) by simp
  have le: "k \<le> 682"
    by (rule computeFeedbackId_bounds [OF assms(1) ws s(2)])
  have "k = word_of_nat (unat k)" by simp
  moreover have "unat k < 683"
    by (rule sint_le_682(4) [OF le])
  ultimately have "k \<in> word_of_nat ` set [0..<683]"
    by (metis (mono_tags, lifting) atLeast0LessThan image_eqI lessThan_iff set_upt)
  then show ?thesis
    by (simp add: keys_upt)
qed

text \<open>The score as a sum over all 32-bit keys.\<close>

lemma sumOfSquares_all_keys:
  assumes "is_Word g" "\<forall>s\<in>set (answerWords game). is_Word s"
  shows "sumOfSquares game g = (\<Sum>k\<in>UNIV. (bucketSize game g k)\<^sup>2)"
proof -
  let ?keys = "map word_of_nat [0..<Suc (nat (sint MAX_FEEDBACK_ID))] :: int32_t list"
  let ?f = "\<lambda>k. (bucketSize game g k)\<^sup>2"
  have inj: "inj_on (word_of_nat :: nat \<Rightarrow> int32_t) (set [0..<683])"
    using inj_on_key by (auto simp: inj_on_def)
  have d: "distinct ?keys"
    using inj by (simp add: distinct_map keys_upt)
  have zero: "?f k = 0" if "k \<in> UNIV - set ?keys" for k
    using that bucket_key_in_range [OF assms, of k] by auto
  have "sumOfSquares game g = (\<Sum>k\<leftarrow>?keys. ?f k)"
    by (simp add: sumOfSquares_def comp_def)
  also have "\<dots> = sum ?f (set ?keys)"
    by (rule sum_list_distinct_conv_sum_set [OF d])
  also have "\<dots> = sum ?f UNIV"
    by (rule sum.mono_neutral_left) (use zero in auto)
  finally show ?thesis .
qed

lemma bestOf_index:
  assumes "\<forall>x\<in>set xs. 0 \<le> f x" "xs \<noteq> []"
  shows "\<exists>i<length xs. bestOf f xs (- 1) best = xs ! i \<and>
            (\<forall>j<length xs. f (xs ! i) \<le> f (xs ! j)) \<and> (\<forall>j<i. f (xs ! i) < f (xs ! j))"
  by (rule bestOf_first_minimum [OF assms]) simp

text \<open>The game with 46341 copies of one answer word.\<close>

lemma bestOf_negative:
  assumes "\<forall>x\<in>set xs. f x < 0" "least < 0" "xs \<noteq> []"
  shows "bestOf f xs least best = last xs"
  using assms
proof (induction xs arbitrary: least best)
  case Nil
  then show ?case by simp
next
  case (Cons x xs)
  show ?case
  proof (cases "xs = []")
    case True
    then show ?thesis using Cons.prems by simp
  next
    case False
    then show ?thesis using Cons by simp
  qed
qed

lemma remdups_replicate_append:
  "remdups (replicate n x @ ys) = (if n = 0 \<or> x \<in> set ys then remdups ys else x # remdups ys)"
  by (induction n) auto

lemma fields_gameOverflow:
  "feedbacks gameOverflow = [theFeedback ''roate'' ''rryrg'']"
  "answerWords gameOverflow =
     replicate 46341 (theWord ''apple'') @ [theWord ''angle'', theWord ''ample'']"
  "guessWords gameOverflow =
     replicate 46341 (theWord ''apple'') @ [theWord ''angle'', theWord ''ample'']"
  by (simp_all add: gameOverflow_def pushFeedback_def WordleGame_new_def)

lemma possible_gameOverflow:
  "isPossibleAnswer gameOverflow (theWord ''apple'') = Inr True"
  "isPossibleAnswer gameOverflow (theWord ''angle'') = Inr True"
  "isPossibleAnswer gameOverflow (theWord ''ample'') = Inr True"
proof -
  have "isPossibleAnswer_loop [theFeedback ''roate'' ''rryrg''] (theWord ''apple'') = Inr True"
    "isPossibleAnswer_loop [theFeedback ''roate'' ''rryrg''] (theWord ''angle'') = Inr True"
    "isPossibleAnswer_loop [theFeedback ''roate'' ''rryrg''] (theWord ''ample'') = Inr True"
    by code_simp+
  then show "isPossibleAnswer gameOverflow (theWord ''apple'') = Inr True"
    "isPossibleAnswer gameOverflow (theWord ''angle'') = Inr True"
    "isPossibleAnswer gameOverflow (theWord ''ample'') = Inr True"
    by (simp_all add: isPossibleAnswer_def fields_gameOverflow)
qed

lemma candidates_gameOverflow:
  "candidateSolutions gameOverflow =
     replicate 46341 (theWord ''apple'') @ [theWord ''angle'', theWord ''ample'']"
  by (simp add: candidateSolutions_def fields_gameOverflow filter_replicate
      possible_gameOverflow)

lemma is_Word_gameOverflow:
  "\<forall>s\<in>set (replicate 46341 (theWord ''apple'') @ [theWord ''angle'', theWord ''ample'']).
     is_Word s"
  using is_Word_apple is_Word_angle is_Word_ample by auto

lemma nothrow_gameOverflow:
  "\<forall>s\<in>set (answerWords gameOverflow).
     is_Word s \<and> (\<exists>b. isPossibleAnswer gameOverflow s = Inr b)"
  using is_Word_apple is_Word_angle is_Word_ample possible_gameOverflow
  by (auto simp: fields_gameOverflow)

lemma keys_gameOverflow:
  "computeFeedbackId (theWord ''apple'') (theWord ''apple'') = Inr 682"
  "computeFeedbackId (theWord ''apple'') (theWord ''angle'') = Inr 642"
  "computeFeedbackId (theWord ''apple'') (theWord ''ample'') = Inr 678"
  "computeFeedbackId (theWord ''angle'') (theWord ''apple'') = Inr 642"
  "computeFeedbackId (theWord ''angle'') (theWord ''angle'') = Inr 682"
  "computeFeedbackId (theWord ''angle'') (theWord ''ample'') = Inr 642"
  "computeFeedbackId (theWord ''ample'') (theWord ''apple'') = Inr 674"
  "computeFeedbackId (theWord ''ample'') (theWord ''angle'') = Inr 642"
  "computeFeedbackId (theWord ''ample'') (theWord ''ample'') = Inr 682"
  by code_simp+

lemma sumOfSquares_gameOverflow:
  "sumOfSquares gameOverflow (theWord ''apple'') = 2147488283"
  "sumOfSquares gameOverflow (theWord ''angle'') = 2147580965"
  "sumOfSquares gameOverflow (theWord ''ample'') = 2147488283"
proof -
  have c: "\<forall>s\<in>set (candidateSolutions gameOverflow). is_Word s"
    using is_Word_gameOverflow by (simp only: candidates_gameOverflow)
  show "sumOfSquares gameOverflow (theWord ''apple'') = 2147488283"
    unfolding sumOfSquares_keys [OF is_Word_apple c] candidates_gameOverflow
    by (simp add: filter_replicate remdups_replicate_append keys_gameOverflow)
  show "sumOfSquares gameOverflow (theWord ''angle'') = 2147580965"
    unfolding sumOfSquares_keys [OF is_Word_angle c] candidates_gameOverflow
    by (simp add: filter_replicate remdups_replicate_append keys_gameOverflow)
  show "sumOfSquares gameOverflow (theWord ''ample'') = 2147488283"
    unfolding sumOfSquares_keys [OF is_Word_ample c] candidates_gameOverflow
    by (simp add: filter_replicate remdups_replicate_append keys_gameOverflow)
qed

lemma scoreGuess_gameOverflow:
  "scoreGuess gameOverflow (theWord ''apple'') = Inr (gameOverflow, 2147488283)"
  "scoreGuess gameOverflow (theWord ''angle'') = Inr (gameOverflow, 2147580965)"
  "scoreGuess gameOverflow (theWord ''ample'') = Inr (gameOverflow, 2147488283)"
  by (simp_all add: scoreGuess_eq [OF is_Word_apple nothrow_gameOverflow]
      scoreGuess_eq [OF is_Word_angle nothrow_gameOverflow]
      scoreGuess_eq [OF is_Word_ample nothrow_gameOverflow] sumOfSquares_gameOverflow)

lemma guessScore_gameOverflow:
  "guessScore gameOverflow (theWord ''apple'') = Some (- 2147479013)"
  "guessScore gameOverflow (theWord ''angle'') = Some (- 2147386331)"
  "guessScore gameOverflow (theWord ''ample'') = Some (- 2147479013)"
  by (simp_all add: guessScore_def scoreGuess_gameOverflow)

lemma getGuess_gameOverflow: "getGuess gameOverflow = Inr (theWord ''ample'', gameOverflow)"
proof -
  let ?gw = "guessWords gameOverflow"
  let ?sc = "\<lambda>g. if g = theWord ''angle'' then (2147580965 :: int32_t) else 2147488283"
  have f: "feedbacks gameOverflow \<noteq> []" and ne: "?gw \<noteq> []"
    by (simp_all add: fields_gameOverflow)
  have nothrow: "\<forall>s\<in>set (answerWords gameOverflow). \<exists>b. isPossibleAnswer gameOverflow s = Inr b"
    using nothrow_gameOverflow by simp
  have len: "length (candidateSolutions gameOverflow) = 46343"
    by (simp add: candidates_gameOverflow)
  have n: "length (candidateSolutions gameOverflow) < 2 ^ 31"
    unfolding len by simp
  have sc: "\<forall>g\<in>set ?gw. scoreGuess gameOverflow g = Inr (gameOverflow, ?sc g)"
    using words_differ by (auto simp: fields_gameOverflow scoreGuess_gameOverflow)
  have "scoreGuesses gameOverflow ?gw (- 1) (hd ?gw) =
          Inr (gameOverflow, bestOf (\<lambda>g. sint (?sc g)) ?gw (sint (- 1 :: int32_t)) (hd ?gw))"
    by (rule scoreGuesses_eq [OF sc])
  also have "bestOf (\<lambda>g. sint (?sc g)) ?gw (sint (- 1 :: int32_t)) (hd ?gw) = last ?gw"
    by (rule bestOf_negative) (simp_all add: ne)
  also have "last ?gw = theWord ''ample''"
    by (simp add: fields_gameOverflow)
  finally have "scoreGuesses gameOverflow ?gw (- 1) (hd ?gw) =
      Inr (gameOverflow, theWord ''ample'')" .
  then show ?thesis
    using len by (simp add: getGuess_count [OF f ne nothrow n])
qed

text \<open>
  C1, amended. In every game with a non-empty feedback stack, Words as vocabularies, a
  guess word and at least 3 candidates (answer words consistent with the stack), as long as
  the sum of squares of every guess word is below \<open>2 ^ 31\<close> and so fits the
  \<open>int32_t\<close> accumulator: for each guess word \<open>g\<close> the scoring of \<open>getGuess\<close> (with
  its speculative push and pop) leaves the game as it was and accumulates the sum over the
  keys \<open>k\<close> of \<open>n_k\<close> squared, \<open>n_k\<close> the number of candidates \<open>s\<close> with
  \<open>computeFeedbackId g s = k\<close>; the sum over the keys \<open>0 .. MAX_FEEDBACK_ID\<close> is the
  sum over all keys, since no other key has a candidate; and \<open>getGuess\<close> returns a
  guess word whose sum is minimal.
\<close>

theorem score_is_sum_of_squares:
  assumes "feedbacks game \<noteq> []" "guessWords game \<noteq> []"
    and "\<forall>g\<in>set (guessWords game). is_Word g"
    and "\<forall>s\<in>set (answerWords game). is_Word s"
    and "3 \<le> length (candidateSolutions game)"
    and "\<forall>g\<in>set (guessWords game). sumOfSquares game g < 2 ^ 31"
  shows "(\<forall>g\<in>set (guessWords game).
            scoreGuess game g = Inr (game, word_of_nat (sumOfSquares game g)) \<and>
            guessScore game g = Some (int (sumOfSquares game g)) \<and>
            sumOfSquares game g = (\<Sum>k\<in>UNIV. (bucketSize game g k)\<^sup>2) \<and>
            (\<forall>k. bucketSize game g k \<noteq> 0 \<longrightarrow>
                 k \<in> set (map word_of_nat [0..<Suc (nat (sint MAX_FEEDBACK_ID))]))) \<and>
         (\<exists>w\<in>set (guessWords game).
            getGuess game = Inr (w, game) \<and>
            (\<forall>g\<in>set (guessWords game). sumOfSquares game w \<le> sumOfSquares game g))"
proof -
  have ne: "candidateSolutions game \<noteq> []"
    using assms(5) by auto
  note nothrow = candidates_no_throw [OF assms(4) ne]
  have scores: "\<forall>g\<in>set (guessWords game).
            scoreGuess game g = Inr (game, word_of_nat (sumOfSquares game g)) \<and>
            guessScore game g = Some (int (sumOfSquares game g)) \<and>
            sumOfSquares game g = (\<Sum>k\<in>UNIV. (bucketSize game g k)\<^sup>2) \<and>
            (\<forall>k. bucketSize game g k \<noteq> 0 \<longrightarrow>
                 k \<in> set (map word_of_nat [0..<Suc (nat (sint MAX_FEEDBACK_ID))]))"
    using assms(3,6) scoreGuess_eq [OF _ nothrow] guessScore_eq [OF _ nothrow]
      bucket_key_in_range [OF _ assms(4)] sumOfSquares_all_keys [OF _ assms(4)]
    by blast
  let ?f = "\<lambda>g. int (sumOfSquares game g)"
  have full: "getGuess game = Inr (bestOf ?f (guessWords game) (- 1) (hd (guessWords game)), game)"
    using assms(5)
    by (intro getGuess_full_search(2)
          [OF assms(1,2,3) nothrow _ candidates_fit [OF assms(2,3,4,6)] assms(6)]) simp
  obtain i where i: "i < length (guessWords game)"
    "bestOf ?f (guessWords game) (- 1) (hd (guessWords game)) = guessWords game ! i"
    "\<forall>j<length (guessWords game). ?f (guessWords game ! i) \<le> ?f (guessWords game ! j)"
    using bestOf_index [of "guessWords game" ?f "hd (guessWords game)"] assms(2) by auto
  have "guessWords game ! i \<in> set (guessWords game)"
    using i(1) by simp
  moreover have "\<forall>g\<in>set (guessWords game).
      sumOfSquares game (guessWords game ! i) \<le> sumOfSquares game g"
    using i(3) by (auto simp: in_set_conv_nth)
  ultimately show ?thesis
    using scores full i(2) by auto
qed

theorem score_is_sum_of_squares_witness:
  "feedbacks gameFour \<noteq> [] \<and> length (candidateSolutions gameFour) = 4 \<and>
   scoreGuess gameFour (theWord ''angle'') = Inr (gameFour, 6) \<and>
   guessScore gameFour (theWord ''roate'') = Some 16 \<and>
   guessScore gameFour (theWord ''apple'') = Some 4 \<and>
   (\<exists>w. getGuess gameFour = Inr (w, gameFour) \<and> sumOfSquares gameFour w = 4)"
proof -
  have gw: "\<forall>g\<in>set (guessWords gameFour). is_Word g"
    using is_Word_roate is_Word_apple is_Word_angle is_Word_ample is_Word_maple
    by (simp add: guessWords_gameFour)
  have aw: "\<forall>s\<in>set (answerWords gameFour). is_Word s"
    using is_Word_apple is_Word_angle is_Word_ample is_Word_maple
    by (simp add: answerWords_gameFour)
  have ne: "guessWords gameFour \<noteq> []"
    by (simp add: guessWords_gameFour)
  have len: "length (candidateSolutions gameFour) = 4"
    by (simp add: candidates_gameFour)
  have n: "3 \<le> length (candidateSolutions gameFour)"
    unfolding len by simp
  have fit: "\<forall>g\<in>set (guessWords gameFour). sumOfSquares gameFour g < 2 ^ 31"
    by (simp add: guessWords_gameFour scores_gameFour)
  from score_is_sum_of_squares [OF feedbacks_gameFour ne gw aw n fit]
  have scores: "\<forall>g\<in>set (guessWords gameFour).
        scoreGuess gameFour g = Inr (gameFour, word_of_nat (sumOfSquares gameFour g)) \<and>
        guessScore gameFour g = Some (int (sumOfSquares gameFour g))"
    and best: "\<exists>w\<in>set (guessWords gameFour). getGuess gameFour = Inr (w, gameFour) \<and>
        (\<forall>g\<in>set (guessWords gameFour). sumOfSquares gameFour w \<le> sumOfSquares gameFour g)"
    by blast+
  obtain w where w: "w \<in> set (guessWords gameFour)" "getGuess gameFour = Inr (w, gameFour)"
    "\<forall>g\<in>set (guessWords gameFour). sumOfSquares gameFour w \<le> sumOfSquares gameFour g"
    using best by blast
  have "sumOfSquares gameFour w = 4"
    using w(1,3) by (auto simp: guessWords_gameFour scores_gameFour)
  then show ?thesis
    using scores w(2) feedbacks_gameFour len
    by (auto simp: guessWords_gameFour scores_gameFour)
qed

text \<open>
  C1, as stated for every game, fails. In a game with three different candidates, one of
  them 46341 times in the answer words, the sum of squares for the guess word "apple" is
  2147488283, above every \<open>int32_t\<close>: the score accumulated for it is not that sum (the
  32-bit accumulator holds - 2147479013).
\<close>

theorem score_is_sum_of_squares_counterexample:
  "feedbacks gameOverflow \<noteq> [] \<and>
   3 \<le> length (candidateSolutions gameOverflow) \<and>
   3 \<le> length (remdups (candidateSolutions gameOverflow)) \<and>
   theWord ''apple'' \<in> set (guessWords gameOverflow) \<and>
   sumOfSquares gameOverflow (theWord ''apple'') = 2147488283 \<and>
   guessScore gameOverflow (theWord ''apple'') = Some (- 2147479013) \<and>
   guessScore gameOverflow (theWord ''apple'') \<noteq>
     Some (int (sumOfSquares gameOverflow (theWord ''apple'')))"
  using words_differ
  by (simp add: fields_gameOverflow candidates_gameOverflow remdups_replicate_append
      sumOfSquares_gameOverflow guessScore_gameOverflow)

text \<open>What the loop over the guess words would choose in the game with two candidates.\<close>

lemma full_search_gameTwo:
  "scoreGuesses gameTwo (guessWords gameTwo) (- 1) (hd (guessWords gameTwo)) =
     Inr (gameTwo, theWord ''apple'')"
proof -
  have aw: "\<forall>s\<in>set (answerWords gameTwo). is_Word s"
    using is_Word_angle is_Word_ample by (simp add: answerWords_gameTwo)
  have cne: "candidateSolutions gameTwo \<noteq> []"
    by (simp add: candidates_gameTwo)
  note nothrow = candidates_no_throw [OF aw cne]
  have sc: "\<forall>g\<in>set (guessWords gameTwo).
      scoreGuess gameTwo g = Inr (gameTwo, word_of_nat (sumOfSquares gameTwo g))"
    using is_Word_apple is_Word_angle is_Word_ample scoreGuess_eq [OF _ nothrow]
    by (simp add: guessWords_gameTwo)
  show ?thesis
    unfolding scoreGuesses_eq [OF sc]
    by (simp add: guessWords_gameTwo scores_gameTwo)
qed

text \<open>
  C5, amended. In every game with a non-empty feedback stack, Words as answer words and
  exactly 1 or exactly 2 candidates, the candidates being the entries of the answer words
  consistent with the stack, each counted as often as it is listed (the count
  \<open>numPossibleSolutions\<close> of line 246), \<open>getGuess\<close> returns the first candidate in
  the order of the answer words, whatever the scores of the guess words are, and leaves the
  game as it was.
\<close>

theorem few_candidates_return_first:
  assumes "feedbacks game \<noteq> []" "guessWords game \<noteq> []"
    and "\<forall>s\<in>set (answerWords game). is_Word s"
    and "length (candidateSolutions game) = 1 \<or> length (candidateSolutions game) = 2"
  shows "getGuess game = Inr (hd (candidateSolutions game), game)"
proof -
  have ne: "candidateSolutions game \<noteq> []"
    using assms(4) by auto
  have nothrow: "\<forall>s\<in>set (answerWords game). \<exists>b. isPossibleAnswer game s = Inr b"
    using candidates_no_throw [OF assms(3) ne] by simp
  have n: "length (candidateSolutions game) < 2 ^ 31"
    using assms(4) by auto
  show ?thesis
    using assms(4) ne by (auto simp: getGuess_count [OF assms(1,2) nothrow n])
qed

theorem few_candidates_return_first_witness:
  "feedbacks gameTwo \<noteq> [] \<and> length (candidateSolutions gameTwo) = 2 \<and>
   getGuess gameTwo = Inr (theWord ''angle'', gameTwo) \<and>
   scoreGuesses gameTwo (guessWords gameTwo) (- 1) (hd (guessWords gameTwo)) =
     Inr (gameTwo, theWord ''apple'') \<and>
   theWord ''apple'' \<noteq> theWord ''angle''"
proof -
  have aw: "\<forall>s\<in>set (answerWords gameTwo). is_Word s"
    using is_Word_angle is_Word_ample by (simp add: answerWords_gameTwo)
  have ne: "guessWords gameTwo \<noteq> []"
    by (simp add: guessWords_gameTwo)
  have len: "length (candidateSolutions gameTwo) = 2"
    by (simp add: candidates_gameTwo)
  then have n: "length (candidateSolutions gameTwo) = 1 \<or> length (candidateSolutions gameTwo) = 2"
    by simp
  from few_candidates_return_first [OF feedbacks_gameTwo ne aw n]
  have "getGuess gameTwo = Inr (theWord ''angle'', gameTwo)"
    by (simp add: candidates_gameTwo)
  then show ?thesis
    using feedbacks_gameTwo len words_differ(1) full_search_gameTwo
    by simp
qed

text \<open>The game whose answer words list "angle" three times.\<close>

lemma fields_gameRepeated:
  "feedbacks gameRepeated \<noteq> []"
  "answerWords gameRepeated = [theWord ''angle'', theWord ''angle'', theWord ''angle'']"
  "guessWords gameRepeated =
     [theWord ''maple'', theWord ''angle'', theWord ''angle'', theWord ''angle'']"
  by (simp_all add: gameRepeated_def pushFeedback_def WordleGame_new_def)

lemma candidates_gameRepeated:
  "candidateSolutions gameRepeated = [theWord ''angle'', theWord ''angle'', theWord ''angle'']"
  by code_simp

lemma scores_gameRepeated:
  "sumOfSquares gameRepeated (theWord ''maple'') = 9"
  "sumOfSquares gameRepeated (theWord ''angle'') = 9"
proof -
  have c: "\<forall>s\<in>set (candidateSolutions gameRepeated). is_Word s"
    using is_Word_angle by (simp add: candidates_gameRepeated)
  show "sumOfSquares gameRepeated (theWord ''maple'') = 9"
    unfolding sumOfSquares_keys [OF is_Word_maple c] candidates_gameRepeated by code_simp
  show "sumOfSquares gameRepeated (theWord ''angle'') = 9"
    unfolding sumOfSquares_keys [OF is_Word_angle c] candidates_gameRepeated by code_simp
qed

lemma getGuess_gameRepeated:
  "getGuess gameRepeated = Inr (theWord ''maple'', gameRepeated)"
proof -
  have gw: "\<forall>g\<in>set (guessWords gameRepeated). is_Word g"
    using is_Word_maple is_Word_angle by (simp add: fields_gameRepeated)
  have aw: "\<forall>s\<in>set (answerWords gameRepeated). is_Word s"
    using is_Word_angle by (simp add: fields_gameRepeated)
  have ne: "guessWords gameRepeated \<noteq> []"
    by (simp add: fields_gameRepeated)
  have cne: "candidateSolutions gameRepeated \<noteq> []"
    by (simp add: candidates_gameRepeated)
  have len: "length (candidateSolutions gameRepeated) = 3"
    by (simp add: candidates_gameRepeated)
  have n: "candidateSolutions gameRepeated = [] \<or> 3 \<le> length (candidateSolutions gameRepeated)"
    "length (candidateSolutions gameRepeated) < 2 ^ 31"
    unfolding len by simp_all
  have fit: "\<forall>g\<in>set (guessWords gameRepeated). sumOfSquares gameRepeated g < 2 ^ 31"
    by (simp add: fields_gameRepeated scores_gameRepeated)
  note nothrow = candidates_no_throw [OF aw cne]
  show ?thesis
    unfolding getGuess_full_search(2) [OF fields_gameRepeated(1) ne gw nothrow n fit]
    by (simp add: fields_gameRepeated scores_gameRepeated)
qed

text \<open>
  C5, as stated for the set of consistent words, fails. In the game whose answer words
  list "angle" three times, the set of answer words consistent with the stack has the one
  element "angle", but three entries are counted, the early return of line 265 is not
  taken, and the full search returns the first guess word "maple", which is no answer
  word.
\<close>

theorem few_candidates_return_first_counterexample:
  "feedbacks gameRepeated \<noteq> [] \<and>
   set (candidateSolutions gameRepeated) = {theWord ''angle''} \<and>
   card (set (candidateSolutions gameRepeated)) = 1 \<and>
   length (candidateSolutions gameRepeated) = 3 \<and>
   hd (candidateSolutions gameRepeated) = theWord ''angle'' \<and>
   getGuess gameRepeated = Inr (theWord ''maple'', gameRepeated) \<and>
   theWord ''maple'' \<noteq> theWord ''angle'' \<and>
   theWord ''maple'' \<notin> set (answerWords gameRepeated)"
  using words_differ(5)
  by (simp add: fields_gameRepeated candidates_gameRepeated getGuess_gameRepeated)

lemma countFeedbackIds_none:
  assumes "\<forall>s\<in>set ws. isPossibleAnswer game s = Inr False"
  shows "countFeedbackIds game g ws counts = Inr counts"
  using assms by (induction ws) simp_all

lemma scoreFeedbackIds_zero:
  assumes "\<forall>j\<in>set js. j < n"
  shows "scoreFeedbackIds game g (replicate n 0) js acc = Inr (game, acc)"
  using assms by (induction js) simp_all

lemma scoreGuess_none:
  assumes "\<forall>s\<in>set (answerWords game). isPossibleAnswer game s = Inr False"
  shows "scoreGuess game g = Inr (game, 0)"
  by (simp add: scoreGuess_def countFeedbackIds_none [OF assms] counts_size keys_upt
      scoreFeedbackIds_zero)

lemma bestOf_zero: "bestOf (\<lambda>g. 0) xs 0 best = best"
  by (induction xs) simp_all

text \<open>
  C6, amended. In every game with a non-empty feedback stack and a non-empty guess
  vocabulary, where \<open>isPossibleAnswer\<close> returns false on every answer word: there is no
  candidate, the early return is not taken, the scoring gives every guess word the score 0
  and leaves the game as it was, and the loop over the guess words, and so \<open>getGuess\<close>,
  returns the first guess word.
\<close>

theorem no_candidates_return_first_guess_word:
  assumes "feedbacks game \<noteq> []" "guessWords game \<noteq> []"
    and "\<forall>s\<in>set (answerWords game). isPossibleAnswer game s = Inr False"
  shows "candidateSolutions game = [] \<and>
         firstPossibleSolution game (answerWords game) = Inr None \<and>
         (\<forall>g\<in>set (guessWords game). scoreGuess game g = Inr (game, 0) \<and>
                                      guessScore game g = Some 0) \<and>
         scoreGuesses game (guessWords game) (- 1) (hd (guessWords game)) =
           Inr (game, hd (guessWords game)) \<and>
         getGuess game = Inr (hd (guessWords game), game)"
proof -
  have c: "candidateSolutions game = []"
    using assms(3) by (simp add: candidateSolutions_def filter_empty_conv)
  have nothrow: "\<forall>s\<in>set (answerWords game). \<exists>b. isPossibleAnswer game s = Inr b"
    using assms(3) by blast
  have first: "firstPossibleSolution game (answerWords game) = Inr None"
    using firstPossibleSolution_eq [OF nothrow] c by (simp add: candidateSolutions_def)
  have score: "scoreGuess game g = Inr (game, 0)" for g
    by (rule scoreGuess_none [OF assms(3)])
  obtain g gs where gw: "guessWords game = g # gs"
    using assms(2) by (cases "guessWords game") auto
  have "scoreGuesses game (guessWords game) (- 1) (hd (guessWords game)) =
          Inr (game, bestOf (\<lambda>g. sint (0 :: int32_t)) (guessWords game) (sint (- 1 :: int32_t))
                 (hd (guessWords game)))"
    by (rule scoreGuesses_eq) (simp add: score)
  then have loop: "scoreGuesses game (guessWords game) (- 1) (hd (guessWords game)) =
          Inr (game, hd (guessWords game))"
    by (simp add: gw bestOf_zero)
  have "getGuess game = Inr (hd (guessWords game), game)"
    using c loop by (simp add: getGuess_count [OF assms(1,2) nothrow])
  then show ?thesis
    using c first score loop by (simp add: guessScore_def)
qed

theorem no_candidates_return_first_guess_word_witness:
  "feedbacks gameNone \<noteq> [] \<and> candidateSolutions gameNone = [] \<and>
   guessScore gameNone (theWord ''apple'') = Some 0 \<and>
   getGuess gameNone = Inr (theWord ''maple'', gameNone)"
proof -
  have aw: "\<forall>s\<in>set (answerWords gameNone). isPossibleAnswer gameNone s = Inr False"
    using impossible_gameNone by (simp add: answerWords_gameNone)
  have ne: "guessWords gameNone \<noteq> []"
    by (simp add: guessWords_gameNone)
  from no_candidates_return_first_guess_word [OF feedbacks_gameNone ne aw]
  show ?thesis
    using feedbacks_gameNone by (simp add: guessWords_gameNone)
qed

text \<open>
  C6, as stated for every game, fails. In the game made from two empty word files the
  feedback stack is not empty and no answer word is consistent with it, but there is no
  guess word either: line 243 reads \<open>(*guessWords)[0]\<close> of an empty vector before any
  search, and no first entry is returned.
\<close>

theorem no_candidates_return_first_guess_word_counterexample:
  "feedbacks gameEmpty \<noteq> [] \<and>
   answerWords gameEmpty = [] \<and>
   candidateSolutions gameEmpty = [] \<and>
   guessWords gameEmpty = [] \<and>
   getGuess gameEmpty = Inl OutOfRange"
  by (simp add: gameEmpty_def pushFeedback_def WordleGame_new_def candidateSolutions_def
      getGuess_def)

text \<open>
  C7, amended. In the full search (non-empty feedback stack, Words as vocabularies, a guess
  word, no throw of \<open>isPossibleAnswer\<close> on an answer word, no candidate or at least 3 of
  them), as long as the sum of squares of every guess word is below \<open>2 ^ 31\<close>,
  \<open>getGuess\<close> returns the guess word at the first index whose score is minimal: no guess
  word has a smaller score and every guess word before it has a strictly greater one. The
  game it leaves is the game it was given, so a second call is made on the same state and
  returns the same guess.
\<close>

theorem full_search_returns_first_minimum:
  assumes "feedbacks game \<noteq> []" "guessWords game \<noteq> []"
    and "\<forall>g\<in>set (guessWords game). is_Word g"
    and "\<forall>s\<in>set (answerWords game). is_Word s \<and> (\<exists>b. isPossibleAnswer game s = Inr b)"
    and "candidateSolutions game = [] \<or> 3 \<le> length (candidateSolutions game)"
    and "\<forall>g\<in>set (guessWords game). sumOfSquares game g < 2 ^ 31"
  shows "\<exists>i<length (guessWords game).
           getGuess game = Inr (guessWords game ! i, game) \<and>
           (\<forall>j<length (guessWords game). \<exists>m n.
              guessScore game (guessWords game ! i) = Some m \<and>
              guessScore game (guessWords game ! j) = Some n \<and>
              m \<le> n \<and> (j < i \<longrightarrow> m < n)) \<and>
           (\<forall>w game'. getGuess game = Inr (w, game') \<longrightarrow> getGuess game' = Inr (w, game'))"
proof -
  let ?f = "\<lambda>g. int (sumOfSquares game g)"
  have aw: "\<forall>s\<in>set (answerWords game). is_Word s"
    using assms(4) by simp
  note full = getGuess_full_search
    [OF assms(1,2,3,4,5) candidates_fit [OF assms(2,3) aw assms(6)] assms(6)]
  obtain i where i: "i < length (guessWords game)"
    "bestOf ?f (guessWords game) (- 1) (hd (guessWords game)) = guessWords game ! i"
    "\<forall>j<length (guessWords game). ?f (guessWords game ! i) \<le> ?f (guessWords game ! j)"
    "\<forall>j<i. ?f (guessWords game ! i) < ?f (guessWords game ! j)"
    using bestOf_index [of "guessWords game" ?f "hd (guessWords game)"] assms(2) by auto
  have score: "guessScore game (guessWords game ! j) = Some (?f (guessWords game ! j))"
    if "j < length (guessWords game)" for j
    using full(1) that by simp
  have g: "getGuess game = Inr (guessWords game ! i, game)"
    using full(2) i(2) by simp
  have "\<forall>j<length (guessWords game). \<exists>m n.
              guessScore game (guessWords game ! i) = Some m \<and>
              guessScore game (guessWords game ! j) = Some n \<and>
              m \<le> n \<and> (j < i \<longrightarrow> m < n)"
    using score i by simp
  then show ?thesis
    using i(1) g by auto
qed

theorem full_search_returns_first_minimum_witness:
  "feedbacks gameFour \<noteq> [] \<and> length (candidateSolutions gameFour) = 4 \<and>
   guessWords gameFour ! 1 = theWord ''apple'' \<and> guessWords gameFour ! 3 = theWord ''ample'' \<and>
   guessScore gameFour (theWord ''roate'') = Some 16 \<and>
   guessScore gameFour (theWord ''apple'') = Some 4 \<and>
   guessScore gameFour (theWord ''ample'') = Some 4 \<and>
   getGuess gameFour = Inr (theWord ''apple'', gameFour)"
proof -
  have gw: "\<forall>g\<in>set (guessWords gameFour). is_Word g"
    using is_Word_roate is_Word_apple is_Word_angle is_Word_ample is_Word_maple
    by (simp add: guessWords_gameFour)
  have aw: "\<forall>s\<in>set (answerWords gameFour). is_Word s"
    using is_Word_apple is_Word_angle is_Word_ample is_Word_maple
    by (simp add: answerWords_gameFour)
  have ne: "guessWords gameFour \<noteq> []"
    by (simp add: guessWords_gameFour)
  have len: "length (candidateSolutions gameFour) = 4"
    by (simp add: candidates_gameFour)
  have cne: "candidateSolutions gameFour \<noteq> []"
    by (simp add: candidates_gameFour)
  have n: "candidateSolutions gameFour = [] \<or> 3 \<le> length (candidateSolutions gameFour)"
    unfolding len by simp
  have fit: "\<forall>g\<in>set (guessWords gameFour). sumOfSquares gameFour g < 2 ^ 31"
    by (simp add: guessWords_gameFour scores_gameFour)
  note nothrow = candidates_no_throw [OF aw cne]
  have sc: "guessScore gameFour g = Some (int (sumOfSquares gameFour g))"
    if "g \<in> set (guessWords gameFour)" for g
    using that gw fit by (intro guessScore_eq [OF _ nothrow]) simp_all
  have s0: "guessScore gameFour (guessWords gameFour ! 0) = Some 16"
    and s1: "guessScore gameFour (guessWords gameFour ! 1) = Some 4"
    and s2: "guessScore gameFour (guessWords gameFour ! 2) = Some 6"
    and s3: "guessScore gameFour (guessWords gameFour ! 3) = Some 4"
    and s4: "guessScore gameFour (guessWords gameFour ! 4) = Some 4"
    by (simp_all add: sc guessWords_gameFour scores_gameFour)
  from full_search_returns_first_minimum [OF feedbacks_gameFour ne gw nothrow n fit]
  obtain i where i: "i < length (guessWords gameFour)"
    "getGuess gameFour = Inr (guessWords gameFour ! i, gameFour)"
    "\<forall>j<length (guessWords gameFour). \<exists>m n.
        guessScore gameFour (guessWords gameFour ! i) = Some m \<and>
        guessScore gameFour (guessWords gameFour ! j) = Some n \<and>
        m \<le> n \<and> (j < i \<longrightarrow> m < n)"
    by blast
  have l5: "length (guessWords gameFour) = 5"
    by (simp add: guessWords_gameFour)
  have j1: "\<exists>m n. guessScore gameFour (guessWords gameFour ! i) = Some m \<and>
        guessScore gameFour (guessWords gameFour ! 1) = Some n \<and> m \<le> n \<and> (1 < i \<longrightarrow> m < n)"
    using i(3) l5 by simp
  have "i = 0 \<or> i = 1 \<or> i = 2 \<or> i = 3 \<or> i = 4"
    using i(1) l5 by arith
  then have "i = 1"
    using j1 s0 s1 s2 s3 s4 by auto
  then have "getGuess gameFour = Inr (theWord ''apple'', gameFour)"
    using i(2) by (simp add: guessWords_gameFour)
  then show ?thesis
    using feedbacks_gameFour len s0 s1 s3 by (simp add: guessWords_gameFour)
qed

text \<open>
  C7, as stated for every full search, fails. In the game with 46341 entries of one
  candidate every guess word has a score above the largest \<open>int32_t\<close>, which the 32-bit
  accumulator holds as a negative number; line 304 then replaces the best guess at every
  step. The first guess word "apple" has the minimal score, and \<open>getGuess\<close> returns the
  last one, "ample", which has the same score.
\<close>

theorem full_search_returns_first_minimum_counterexample:
  "feedbacks gameOverflow \<noteq> [] \<and>
   3 \<le> length (candidateSolutions gameOverflow) \<and>
   guessWords gameOverflow ! 0 = theWord ''apple'' \<and>
   guessScore gameOverflow (theWord ''apple'') = Some (- 2147479013) \<and>
   guessScore gameOverflow (theWord ''angle'') = Some (- 2147386331) \<and>
   guessScore gameOverflow (theWord ''ample'') = Some (- 2147479013) \<and>
   sumOfSquares gameOverflow (theWord ''apple'') = sumOfSquares gameOverflow (theWord ''ample'') \<and>
   theWord ''ample'' \<noteq> theWord ''apple'' \<and>
   getGuess gameOverflow = Inr (theWord ''ample'', gameOverflow)"
  using words_differ
  by (simp add: fields_gameOverflow candidates_gameOverflow getGuess_gameOverflow
      guessScore_gameOverflow sumOfSquares_gameOverflow nth_append)

end
